theory Spec2Isabelle
  imports Main "HOL-Library.Word" "HOL-Library.Monad_Syntax"
begin

section \<open>Machine integers\<close>

text \<open>
  A C++ \<open>int\<close> is a 32-bit two's complement value; a \<open>lua_Integer\<close> is a 64-bit one.
  Passing an \<open>int\<close> where a \<open>lua_Integer\<close> is expected sign-extends it, the cast
  \<open>(int)\<close> of a \<open>lua_Integer\<close> keeps the low 32 bits.
\<close>

type_synonym c_int = "32 word"
type_synonym lua_Integer = "64 word"

definition int_to_lua_Integer :: "c_int \<Rightarrow> lua_Integer" where
  "int_to_lua_Integer v = scast v"

definition lua_Integer_to_int :: "lua_Integer \<Rightarrow> c_int" where
  "lua_Integer_to_int i = scast i"

section \<open>core/blob.h\<close>

text \<open>
  The members of \<open>Blob\<close>: \<open>m_buffer\<close> is a \<open>PODArray\<close> of \<open>uint8_t\<close>, \<open>m_pos\<close> and
  \<open>m_size\<close> are \<open>int\<close>, \<open>m_data\<close> is a \<open>void*\<close> (an address).
\<close>

record Blob =
  m_buffer :: "8 word list"
  m_pos :: c_int
  m_size :: c_int
  m_data :: nat

text \<open>\<^verbatim>\<open>void create(void* data, int size) { m_data = data; m_size = size; m_pos = 0; }\<close>\<close>

definition create :: "nat \<Rightarrow> c_int \<Rightarrow> Blob \<Rightarrow> Blob" where
  "create data sz b = b\<lparr>m_data := data, m_size := sz, m_pos := 0\<rparr>"

text \<open>\<^verbatim>\<open>int getBufferSize() const { return m_size; }\<close>\<close>

definition getBufferSize :: "Blob \<Rightarrow> c_int" where
  "getBufferSize b = m_size b"

text \<open>\<^verbatim>\<open>void flush() { m_size = 0; }\<close>\<close>

definition flush :: "Blob \<Rightarrow> Blob" where
  "flush b = b\<lparr>m_size := 0\<rparr>"

text \<open>
  \<^verbatim>\<open>void clearBuffer() { m_buffer.clear(); m_pos = 0; m_size = 0; }\<close>
  where \<open>PODArray::clear\<close> leaves the array without elements.
\<close>

definition clearBuffer :: "Blob \<Rightarrow> Blob" where
  "clearBuffer b = b\<lparr>m_buffer := [], m_pos := 0, m_size := 0\<rparr>"

section \<open>The Lua C API, as far as editor/settings.cpp uses it\<close>

text \<open>
  \<open>Settings\<close> keeps a \<open>lua_State\<close>. Its part that the code reads and writes is the
  stack, the global variables and the tables, which are objects with an identity: a value
  of type table is a reference. A variable or a field that is not set holds \<open>nil\<close>.
  The floating point numbers of Lua are kept abstract (the type variable \<open>'n\<close>).
\<close>

datatype lua_type =
  LUA_TNIL | LUA_TBOOLEAN | LUA_TNUMBER | LUA_TSTRING | LUA_TTABLE | LUA_TFUNCTION

datatype 'n lua_value =
  LNil | LBoolean bool | LInteger lua_Integer | LFloat 'n | LString string
  | LTable nat | LFunction nat

datatype lua_key = KString string | KInteger lua_Integer

record 'n lua_State =
  stack :: "'n lua_value list"
  globals :: "string \<Rightarrow> 'n lua_value"
  tables :: "nat \<rightharpoonup> (lua_key \<Rightarrow> 'n lua_value)"
  next_ref :: nat

text \<open>
  What the platform fixes and the sources do not: the conversions between Lua numbers,
  C \<open>float\<close>s (the type variable \<open>'f\<close>) and strings, and the two \<open>float\<close> literals of
  settings.cpp.
\<close>

record ('n, 'f) numerics =
  float_to_integer :: "'n \<Rightarrow> lua_Integer option"
  integer_to_number :: "lua_Integer \<Rightarrow> 'n"
  number_to_float :: "'n \<Rightarrow> 'f"
  number_to_string :: "'n lua_value \<Rightarrow> string"
  float_1000 :: 'f
  float_200 :: 'f

fun lua_typeof :: "'n lua_value \<Rightarrow> lua_type" where
  "lua_typeof LNil = LUA_TNIL"
| "lua_typeof (LBoolean _) = LUA_TBOOLEAN"
| "lua_typeof (LInteger _) = LUA_TNUMBER"
| "lua_typeof (LFloat _) = LUA_TNUMBER"
| "lua_typeof (LString _) = LUA_TSTRING"
| "lua_typeof (LTable _) = LUA_TTABLE"
| "lua_typeof (LFunction _) = LUA_TFUNCTION"

text \<open>
  The head of \<open>stack\<close> is the top. settings.cpp addresses the stack from the top only
  (\<open>-1\<close>, \<open>-2\<close>); an index that is not on the stack has no value (\<open>None\<close>: the API
  leaves the behaviour undefined).
\<close>

definition index2value :: "'n lua_State \<Rightarrow> int \<Rightarrow> 'n lua_value option" where
  "index2value L idx =
     (if idx < 0 \<and> nat (- idx) \<le> length (stack L)
      then Some (stack L ! (nat (- idx) - 1)) else None)"

definition lua_push :: "'n lua_value \<Rightarrow> 'n lua_State \<Rightarrow> 'n lua_State" where
  "lua_push v L = L\<lparr>stack := v # stack L\<rparr>"

definition lua_pop :: "nat \<Rightarrow> 'n lua_State \<Rightarrow> 'n lua_State option" where
  "lua_pop n L = (if n \<le> length (stack L) then Some (L\<lparr>stack := drop n (stack L)\<rparr>) else None)"

definition lua_pushboolean :: "bool \<Rightarrow> 'n lua_State \<Rightarrow> 'n lua_State" where
  "lua_pushboolean b L = lua_push (LBoolean b) L"

definition lua_pushinteger :: "lua_Integer \<Rightarrow> 'n lua_State \<Rightarrow> 'n lua_State" where
  "lua_pushinteger i L = lua_push (LInteger i) L"

text \<open>\<open>lua_newtable\<close> creates an empty table and pushes the reference to it.\<close>

definition lua_newtable :: "'n lua_State \<Rightarrow> 'n lua_State" where
  "lua_newtable L =
     lua_push (LTable (next_ref L))
       (L\<lparr>tables := (tables L)(next_ref L \<mapsto> (\<lambda>_. LNil)), next_ref := Suc (next_ref L)\<rparr>)"

text \<open>\<open>lua_getglobal\<close> pushes the value of the global and returns its type.\<close>

definition lua_getglobal :: "string \<Rightarrow> 'n lua_State \<Rightarrow> lua_type \<times> 'n lua_State" where
  "lua_getglobal name L = (lua_typeof (globals L name), lua_push (globals L name) L)"

text \<open>\<open>lua_setglobal\<close> pops a value and assigns it to the global.\<close>

definition lua_setglobal :: "string \<Rightarrow> 'n lua_State \<Rightarrow> 'n lua_State option" where
  "lua_setglobal name L =
     (case stack L of
        [] \<Rightarrow> None
      | v # st \<Rightarrow> Some (L\<lparr>stack := st, globals := (globals L)(name := v)\<rparr>))"

text \<open>
  \<open>lua_getfield(L, idx, k)\<close> pushes \<open>t[k]\<close> for the table \<open>t\<close> at \<open>idx\<close> and returns the
  type of the pushed value. Tables have no metatable here. Indexing a value that is not a
  table is outside the model (\<open>None\<close>): Lua raises an error there, which outside a
  protected call ends the program.
\<close>

definition lua_getfield :: "int \<Rightarrow> string \<Rightarrow> 'n lua_State \<Rightarrow> (lua_type \<times> 'n lua_State) option" where
  "lua_getfield idx k L =
     (case index2value L idx of
        Some (LTable a) \<Rightarrow>
          (case tables L a of
             Some t \<Rightarrow> Some (lua_typeof (t (KString k)), lua_push (t (KString k)) L)
           | None \<Rightarrow> None)
      | _ \<Rightarrow> None)"

text \<open>\<open>lua_rawgeti(L, idx, n)\<close> pushes \<open>t[n]\<close> and returns its type.\<close>

definition lua_rawgeti :: "int \<Rightarrow> lua_Integer \<Rightarrow> 'n lua_State \<Rightarrow> (lua_type \<times> 'n lua_State) option" where
  "lua_rawgeti idx n L =
     (case index2value L idx of
        Some (LTable a) \<Rightarrow>
          (case tables L a of
             Some t \<Rightarrow> Some (lua_typeof (t (KInteger n)), lua_push (t (KInteger n)) L)
           | None \<Rightarrow> None)
      | _ \<Rightarrow> None)"

text \<open>\<open>lua_setfield(L, idx, k)\<close> does \<open>t[k] = v\<close> for the value \<open>v\<close> on top, and pops it.\<close>

definition lua_setfield :: "int \<Rightarrow> string \<Rightarrow> 'n lua_State \<Rightarrow> 'n lua_State option" where
  "lua_setfield idx k L =
     (case index2value L idx of
        Some (LTable a) \<Rightarrow>
          (case (tables L a, stack L) of
             (Some t, v # st) \<Rightarrow>
               Some (L\<lparr>stack := st, tables := (tables L)(a \<mapsto> t(KString k := v))\<rparr>)
           | _ \<Rightarrow> None)
      | _ \<Rightarrow> None)"

text \<open>\<open>lua_toboolean\<close>: false for \<open>false\<close> and \<open>nil\<close>, true for any other value.\<close>

definition lua_toboolean :: "int \<Rightarrow> 'n lua_State \<Rightarrow> bool option" where
  "lua_toboolean idx L =
     map_option (\<lambda>v. case v of LNil \<Rightarrow> False | LBoolean b \<Rightarrow> b | _ \<Rightarrow> True) (index2value L idx)"

text \<open>
  \<open>lua_tointeger\<close> of a number: the integer itself; a float that has an exact integer
  value is converted, any other float gives 0. settings.cpp calls it on numbers only;
  other values are outside the model (\<open>None\<close>).
\<close>

definition lua_tointeger :: "('n, 'f) numerics \<Rightarrow> int \<Rightarrow> 'n lua_State \<Rightarrow> lua_Integer option" where
  "lua_tointeger num idx L =
     (case index2value L idx of
        Some (LInteger i) \<Rightarrow> Some i
      | Some (LFloat d) \<Rightarrow> Some (case float_to_integer num d of Some i \<Rightarrow> i | None \<Rightarrow> 0)
      | _ \<Rightarrow> None)"

text \<open>
  \<open>lua_tonumber\<close> of a number. settings.cpp calls it on numbers only (in \<open>getFloat\<close>);
  other values are outside the model (\<open>None\<close>).
\<close>

definition lua_tonumber :: "('n, 'f) numerics \<Rightarrow> int \<Rightarrow> 'n lua_State \<Rightarrow> 'n option" where
  "lua_tonumber num idx L =
     (case index2value L idx of
        Some (LInteger i) \<Rightarrow> Some (integer_to_number num i)
      | Some (LFloat d) \<Rightarrow> Some d
      | _ \<Rightarrow> None)"

text \<open>
  \<open>lua_tostring\<close>: the string, or the number as a string; \<open>NULL\<close> (the inner \<open>None\<close>) for
  any other value.
\<close>

definition lua_tostring :: "('n, 'f) numerics \<Rightarrow> int \<Rightarrow> 'n lua_State \<Rightarrow> string option option" where
  "lua_tostring num idx L =
     map_option
       (\<lambda>v. case v of
               LString s \<Rightarrow> Some s
             | LInteger i \<Rightarrow> Some (number_to_string num v)
             | LFloat d \<Rightarrow> Some (number_to_string num v)
             | _ \<Rightarrow> None)
       (index2value L idx)"

section \<open>editor/settings.cpp\<close>

definition DEFAULT_SETTINGS_PATH :: string where
  "DEFAULT_SETTINGS_PATH = ''studio_default.ini''"

definition SETTINGS_PATH :: string where
  "SETTINGS_PATH = ''studio.ini''"

subsection \<open>The static helpers\<close>

text \<open>
  \<^verbatim>\<open>
  static int getIntegerField(lua_State* L, const char* name, int default_value)
  {
      int value = default_value;
      if (lua_getfield(L, -1, name) == LUA_TNUMBER) value = (int)lua_tointeger(L, -1);
      lua_pop(L, 1);
      return value;
  }
  \<close>
\<close>

definition getIntegerField ::
  "('n, 'f) numerics \<Rightarrow> 'n lua_State \<Rightarrow> string \<Rightarrow> c_int \<Rightarrow> (c_int \<times> 'n lua_State) option" where
  "getIntegerField num L name default_value = do {
     (t, L1) \<leftarrow> lua_getfield (- 1) name L;
     value \<leftarrow> (if t = LUA_TNUMBER
               then map_option lua_Integer_to_int (lua_tointeger num (- 1) L1)
               else Some default_value);
     L2 \<leftarrow> lua_pop 1 L1;
     Some (value, L2)
   }"

text \<open>\<open>getFloat\<close>, \<open>getBoolean\<close> and \<open>getInteger\<close> read a global in the same way.\<close>

definition getFloat ::
  "('n, 'f) numerics \<Rightarrow> 'n lua_State \<Rightarrow> string \<Rightarrow> 'f \<Rightarrow> ('f \<times> 'n lua_State) option" where
  "getFloat num L name default_value =
     (case lua_getglobal name L of
        (t, L1) \<Rightarrow> do {
          value \<leftarrow> (if t = LUA_TNUMBER
                    then map_option (number_to_float num) (lua_tonumber num (- 1) L1)
                    else Some default_value);
          L2 \<leftarrow> lua_pop 1 L1;
          Some (value, L2)
        })"

definition getBoolean :: "'n lua_State \<Rightarrow> string \<Rightarrow> bool \<Rightarrow> (bool \<times> 'n lua_State) option" where
  "getBoolean L name default_value =
     (case lua_getglobal name L of
        (t, L1) \<Rightarrow> do {
          value \<leftarrow> (if t = LUA_TBOOLEAN then lua_toboolean (- 1) L1 else Some default_value);
          L2 \<leftarrow> lua_pop 1 L1;
          Some (value, L2)
        })"

definition getInteger ::
  "('n, 'f) numerics \<Rightarrow> 'n lua_State \<Rightarrow> string \<Rightarrow> c_int \<Rightarrow> (c_int \<times> 'n lua_State) option" where
  "getInteger num L name default_value =
     (case lua_getglobal name L of
        (t, L1) \<Rightarrow> do {
          value \<leftarrow> (if t = LUA_TNUMBER
                    then map_option lua_Integer_to_int (lua_tointeger num (- 1) L1)
                    else Some default_value);
          L2 \<leftarrow> lua_pop 1 L1;
          Some (value, L2)
        })"

subsection \<open>Settings\<close>

text \<open>
  The members of \<open>Settings\<close> that settings.cpp reads and writes. \<open>m_window\<close> is a
  struct of four \<open>int\<close>s, here the four fields \<open>m_window_x\<close> ... \<open>m_window_h\<close>;
  \<open>m_state\<close> stands for the Lua state that the pointer \<open>m_state\<close> refers to.
  \<open>m_allocator\<close> and \<open>m_editor\<close> refer to objects outside settings.cpp; what \<open>load\<close>
  asks of the editor's engine is part of the environment below.
\<close>

record ('n, 'f) Settings =
  m_data_dir :: string
  m_filter :: string
  m_is_maximized :: bool
  m_window_x :: c_int
  m_window_y :: c_int
  m_window_w :: c_int
  m_window_h :: c_int
  m_is_opened :: bool
  m_is_entity_list_opened :: bool
  m_is_entity_template_list_opened :: bool
  m_is_asset_browser_opened :: bool
  m_is_log_opened :: bool
  m_is_profiler_opened :: bool
  m_is_properties_opened :: bool
  m_is_crash_reporting_enabled :: bool
  m_force_no_crash_report :: bool
  m_mouse_sensitivity_x :: 'f
  m_mouse_sensitivity_y :: 'f
  m_autosave_time :: c_int
  m_state :: "'n lua_State"

text \<open>
  An \<open>Action\<close> (declared outside settings.cpp) has a name and an array of shortcuts; the
  field \<open>name\<close> is \<open>action_name\<close> here.
\<close>

record Action =
  action_name :: string
  shortcut :: "c_int list"

text \<open>
  The constructor. \<open>L0\<close> is the state that \<open>luaL_newstate\<close> and \<open>luaL_openlibs\<close> leave;
  the constructor adds an empty table as the global \<open>custom\<close>. It does not initialise
  \<open>m_is_opened\<close>, whose value \<open>opened0\<close> is whatever the memory held.
\<close>

definition Settings_ctor ::
  "('n, 'f) numerics \<Rightarrow> bool \<Rightarrow> 'n lua_State \<Rightarrow> ('n, 'f) Settings option" where
  "Settings_ctor num opened0 L0 = do {
     L1 \<leftarrow> lua_setglobal ''custom'' (lua_newtable L0);
     Some \<lparr>m_data_dir = [], m_filter = [], m_is_maximized = True,
           m_window_x = 0, m_window_y = 0, m_window_w = - 1, m_window_h = - 1,
           m_is_opened = opened0,
           m_is_entity_list_opened = False, m_is_entity_template_list_opened = False,
           m_is_asset_browser_opened = False, m_is_log_opened = False,
           m_is_profiler_opened = False, m_is_properties_opened = False,
           m_is_crash_reporting_enabled = True, m_force_no_crash_report = False,
           m_mouse_sensitivity_x = float_1000 num, m_mouse_sensitivity_y = float_1000 num,
           m_autosave_time = 300, m_state = L1\<rparr>
   }"

subsection \<open>Custom values\<close>

text \<open>
  \<^verbatim>\<open>
  void Settings::setValue(const char* name, bool value)
  {
      lua_getglobal(m_state, "custom");
      lua_pushboolean(m_state, value);
      lua_setfield(m_state, -2, name);
      lua_pop(m_state, 1);
  }
  \<close>
  and the same with \<open>lua_pushinteger\<close> for an \<open>int\<close>.
\<close>

definition setValue_bool :: "string \<Rightarrow> bool \<Rightarrow> ('n, 'f) Settings \<Rightarrow> ('n, 'f) Settings option" where
  "setValue_bool name value S =
     (case lua_getglobal ''custom'' (m_state S) of
        (_, L1) \<Rightarrow> do {
          L2 \<leftarrow> lua_setfield (- 2) name (lua_pushboolean value L1);
          L3 \<leftarrow> lua_pop 1 L2;
          Some (S\<lparr>m_state := L3\<rparr>)
        })"

definition setValue_int :: "string \<Rightarrow> c_int \<Rightarrow> ('n, 'f) Settings \<Rightarrow> ('n, 'f) Settings option" where
  "setValue_int name value S =
     (case lua_getglobal ''custom'' (m_state S) of
        (_, L1) \<Rightarrow> do {
          L2 \<leftarrow> lua_setfield (- 2) name (lua_pushinteger (int_to_lua_Integer value) L1);
          L3 \<leftarrow> lua_pop 1 L2;
          Some (S\<lparr>m_state := L3\<rparr>)
        })"

text \<open>
  \<^verbatim>\<open>
  int Settings::getValue(const char* name, int default_value) const
  {
      lua_getglobal(m_state, "custom");
      int v = getIntegerField(m_state, name, default_value);
      lua_pop(m_state, 1);
      return v;
  }
  \<close>
\<close>

definition getValue_int ::
  "('n, 'f) numerics \<Rightarrow> string \<Rightarrow> c_int \<Rightarrow> ('n, 'f) Settings \<Rightarrow> (c_int \<times> ('n, 'f) Settings) option" where
  "getValue_int num name default_value S =
     (case lua_getglobal ''custom'' (m_state S) of
        (_, L1) \<Rightarrow> do {
          (v, L2) \<leftarrow> getIntegerField num L1 name default_value;
          L3 \<leftarrow> lua_pop 1 L2;
          Some (v, S\<lparr>m_state := L3\<rparr>)
        })"

text \<open>
  \<^verbatim>\<open>
  bool Settings::getValue(const char* name, bool default_value) const
  {
      bool v = default_value;
      lua_getglobal(m_state, "custom");
      if (lua_getfield(m_state, -1, name) == LUA_TBOOLEAN) v = lua_toboolean(m_state, -1) != 0;
      lua_pop(m_state, 2);
      return v;
  }
  \<close>
\<close>

definition getValue_bool ::
  "string \<Rightarrow> bool \<Rightarrow> ('n, 'f) Settings \<Rightarrow> (bool \<times> ('n, 'f) Settings) option" where
  "getValue_bool name default_value S =
     (case lua_getglobal ''custom'' (m_state S) of
        (_, L1) \<Rightarrow> do {
          (t, L2) \<leftarrow> lua_getfield (- 1) name L1;
          v \<leftarrow> (if t = LUA_TBOOLEAN then lua_toboolean (- 1) L2 else Some default_value);
          L3 \<leftarrow> lua_pop 2 L2;
          Some (v, S\<lparr>m_state := L3\<rparr>)
        })"

subsection \<open>Settings::load\<close>

text \<open>
  What \<open>load\<close> takes from outside settings.cpp: whether the file exists, what
  \<open>luaL_loadfile\<close> and \<open>lua_pcall\<close> do with the file's text (they return whether the
  status is \<open>LUA_OK\<close>, and the state they leave), whether the engine has a patch file
  device, \<open>Lumix::copyString\<close> into \<open>m_data_dir\<close>, and \<open>ImGui::LoadDock\<close>.
\<close>

record 'n environment =
  fileExists :: "string \<Rightarrow> bool"
  luaL_loadfile :: "string \<Rightarrow> 'n lua_State \<Rightarrow> bool \<times> 'n lua_State"
  lua_pcall :: "'n lua_State \<Rightarrow> bool \<times> 'n lua_State"
  getPatchFileDevice :: bool
  copyString :: "string \<Rightarrow> string"
  LoadDock :: "'n lua_State \<Rightarrow> 'n lua_State"

text \<open>What \<open>load\<close> does to the outside: the error log, and two calls into the engine.\<close>

datatype effect =
  LogError string string "string option"
  | EnableCrashReporting bool
  | SetPatchPath string

text \<open>
  \<^verbatim>\<open>
  if (lua_getglobal(L, "window") == LUA_TTABLE)
  {
      m_window.x = getIntegerField(L, "x", 0);
      m_window.y = getIntegerField(L, "y", 0);
      m_window.w = getIntegerField(L, "w", -1);
      m_window.h = getIntegerField(L, "h", -1);
  }
  lua_pop(L, 1);
  \<close>
\<close>

definition load_window ::
  "('n, 'f) numerics \<Rightarrow> ('n, 'f) Settings \<Rightarrow> 'n lua_State \<Rightarrow> (('n, 'f) Settings \<times> 'n lua_State) option" where
  "load_window num S L =
     (case lua_getglobal ''window'' L of
        (t, L0) \<Rightarrow> do {
          (S', L4) \<leftarrow>
            (if t = LUA_TTABLE then do {
               (vx, L1) \<leftarrow> getIntegerField num L0 ''x'' 0;
               (vy, L2) \<leftarrow> getIntegerField num L1 ''y'' 0;
               (vw, L3) \<leftarrow> getIntegerField num L2 ''w'' (- 1);
               (vh, L4) \<leftarrow> getIntegerField num L3 ''h'' (- 1);
               Some (S\<lparr>m_window_x := vx, m_window_y := vy, m_window_w := vw, m_window_h := vh\<rparr>, L4)
             } else Some (S, L0));
          L5 \<leftarrow> lua_pop 1 L4;
          Some (S', L5)
        })"

text \<open>The flags, the autosave time and the mouse sensitivities, in the order of the source.\<close>

definition load_values ::
  "('n, 'f) numerics \<Rightarrow> ('n, 'f) Settings \<Rightarrow> 'n lua_State
     \<Rightarrow> (('n, 'f) Settings \<times> 'n lua_State \<times> effect list) option" where
  "load_values num S L = do {
     (maximized, L1) \<leftarrow> getBoolean L ''maximized'' True;
     (opened, L2) \<leftarrow> getBoolean L1 ''settings_opened'' False;
     (asset_browser, L3) \<leftarrow> getBoolean L2 ''asset_browser_opened'' False;
     (entity_list, L4) \<leftarrow> getBoolean L3 ''entity_list_opened'' False;
     (entity_template_list, L5) \<leftarrow> getBoolean L4 ''entity_template_list_opened'' False;
     (log_opened, L6) \<leftarrow> getBoolean L5 ''log_opened'' False;
     (profiler, L7) \<leftarrow> getBoolean L6 ''profiler_opened'' False;
     (properties, L8) \<leftarrow> getBoolean L7 ''properties_opened'' False;
     (crash_reporting, L9) \<leftarrow> getBoolean L8 ''error_reporting_enabled'' True;
     (autosave, L10) \<leftarrow> getInteger num L9 ''autosave_time'' 300;
     (sx, L11) \<leftarrow> getFloat num L10 ''mouse_sensitivity_x'' (float_200 num);
     (sy, L12) \<leftarrow> getFloat num L11 ''mouse_sensitivity_y'' (float_200 num);
     Some (S\<lparr>m_is_maximized := maximized, m_is_opened := opened,
              m_is_asset_browser_opened := asset_browser,
              m_is_entity_list_opened := entity_list,
              m_is_entity_template_list_opened := entity_template_list,
              m_is_log_opened := log_opened, m_is_profiler_opened := profiler,
              m_is_properties_opened := properties,
              m_is_crash_reporting_enabled := crash_reporting,
              m_autosave_time := autosave,
              m_mouse_sensitivity_x := sx, m_mouse_sensitivity_y := sy\<rparr>,
           L12,
           [EnableCrashReporting (crash_reporting \<and> \<not> m_force_no_crash_report S)])
   }"

text \<open>
  \<^verbatim>\<open>
  if (!m_editor->getEngine().getPatchFileDevice())
  {
      if (lua_getglobal(L, "data_dir") == LUA_TSTRING) Lumix::copyString(m_data_dir, lua_tostring(L, -1));
      lua_pop(L, 1);
      m_editor->getEngine().setPatchPath(m_data_dir);
  }
  \<close>
\<close>

definition load_data_dir ::
  "'n environment \<Rightarrow> ('n, 'f) numerics \<Rightarrow> ('n, 'f) Settings \<Rightarrow> 'n lua_State
     \<Rightarrow> (('n, 'f) Settings \<times> 'n lua_State \<times> effect list) option" where
  "load_data_dir env num S L =
     (if \<not> getPatchFileDevice env then
        (case lua_getglobal ''data_dir'' L of
           (t, L1) \<Rightarrow> do {
             dir \<leftarrow> (if t = LUA_TSTRING
                     then (case lua_tostring num (- 1) L1 of
                             Some (Some str) \<Rightarrow> Some (copyString env str)
                           | _ \<Rightarrow> None)
                     else Some (m_data_dir S));
             L2 \<leftarrow> lua_pop 1 L1;
             Some (S\<lparr>m_data_dir := dir\<rparr>, L2, [SetPatchPath dir])
           })
      else Some (S, L, []))"

text \<open>
  \<^verbatim>\<open>
  for (int j = 0; j < Lumix::lengthOf(actions[i]->shortcut); ++j)
  {
      if (lua_rawgeti(L, -1, 1 + j) == LUA_TNUMBER) actions[i]->shortcut[j] = (int)lua_tointeger(L, -1);
      lua_pop(L, 1);
  }
  \<close>
  The first argument is \<open>j\<close>, the second the shortcuts from index \<open>j\<close> on.
\<close>

fun load_shortcuts ::
  "('n, 'f) numerics \<Rightarrow> nat \<Rightarrow> c_int list \<Rightarrow> 'n lua_State \<Rightarrow> (c_int list \<times> 'n lua_State) option" where
  "load_shortcuts num j [] L = Some ([], L)"
| "load_shortcuts num j (sc # scs) L = do {
     (t, L1) \<leftarrow> lua_rawgeti (- 1) (of_nat (1 + j)) L;
     v \<leftarrow> (if t = LUA_TNUMBER
           then map_option lua_Integer_to_int (lua_tointeger num (- 1) L1)
           else Some sc);
     L2 \<leftarrow> lua_pop 1 L1;
     (rest, L3) \<leftarrow> load_shortcuts num (Suc j) scs L2;
     Some (v # rest, L3)
   }"

text \<open>
  \<^verbatim>\<open>
  for (int i = 0; i < actions_count; ++i)
  {
      if (lua_getfield(L, -1, actions[i]->name) == LUA_TTABLE) { ... the loop over j ... }
      lua_pop(L, 1);
  }
  \<close>
\<close>

fun load_actions ::
  "('n, 'f) numerics \<Rightarrow> Action list \<Rightarrow> 'n lua_State \<Rightarrow> (Action list \<times> 'n lua_State) option" where
  "load_actions num [] L = Some ([], L)"
| "load_actions num (a # as) L = do {
     (t, L1) \<leftarrow> lua_getfield (- 1) (action_name a) L;
     (sc, L2) \<leftarrow> (if t = LUA_TTABLE then load_shortcuts num 0 (shortcut a) L1
                  else Some (shortcut a, L1));
     L3 \<leftarrow> lua_pop 1 L2;
     (rest, L4) \<leftarrow> load_actions num as L3;
     Some (a\<lparr>shortcut := sc\<rparr> # rest, L4)
   }"

text \<open>The part of \<open>load\<close> after the error branch.\<close>

definition load_fields ::
  "'n environment \<Rightarrow> ('n, 'f) numerics \<Rightarrow> Action list \<Rightarrow> ('n, 'f) Settings \<Rightarrow> 'n lua_State
     \<Rightarrow> (bool \<times> ('n, 'f) Settings \<times> Action list \<times> effect list) option" where
  "load_fields env num actions S L = do {
     (S1, L1) \<leftarrow> load_window num S L;
     (S2, L2, eff2) \<leftarrow> load_values num S1 L1;
     (S3, L3, eff3) \<leftarrow> load_data_dir env num S2 L2;
     (actions', L5) \<leftarrow>
       (case lua_getglobal ''actions'' L3 of
          (t, L4) \<Rightarrow> if t = LUA_TTABLE then load_actions num actions L4 else Some (actions, L4));
     L6 \<leftarrow> lua_pop 1 L5;
     Some (True, S3\<lparr>m_state := LoadDock env L6\<rparr>, actions', eff2 @ eff3)
   }"

text \<open>
  \<^verbatim>\<open>
  bool Settings::load(Action** actions, int actions_count)
  {
      auto L = m_state;
      bool has_settings = PlatformInterface::fileExists(SETTINGS_PATH);
      bool errors = luaL_loadfile(L, has_settings ? SETTINGS_PATH : DEFAULT_SETTINGS_PATH) != LUA_OK;
      errors = errors || lua_pcall(L, 0, 0, 0) != LUA_OK;
      if (errors)
      {
          Lumix::g_log_error.log("Editor") << SETTINGS_PATH << ": " << lua_tostring(L, -1);
          lua_pop(L, 1);
          return false;
      }
      ...
      return true;
  }
  \<close>
  The result is the returned \<open>bool\<close>, the object and the actions after the call, and what
  the call did to the outside. \<open>load_errors\<close> is the value of \<open>errors\<close> at the \<open>if\<close>,
  with the Lua state there.
\<close>

definition load_errors :: "'n environment \<Rightarrow> 'n lua_State \<Rightarrow> bool \<times> 'n lua_State" where
  "load_errors env L =
     (let has_settings = fileExists env SETTINGS_PATH in
      case luaL_loadfile env (if has_settings then SETTINGS_PATH else DEFAULT_SETTINGS_PATH) L of
        (ok1, L1) \<Rightarrow>
          if \<not> ok1 then (True, L1)
          else (case lua_pcall env L1 of (ok2, L2) \<Rightarrow> (\<not> ok2, L2)))"

definition load ::
  "'n environment \<Rightarrow> ('n, 'f) numerics \<Rightarrow> Action list \<Rightarrow> ('n, 'f) Settings
     \<Rightarrow> (bool \<times> ('n, 'f) Settings \<times> Action list \<times> effect list) option" where
  "load env num actions S =
     (case load_errors env (m_state S) of
        (errors, L) \<Rightarrow>
          if errors then do {
            msg \<leftarrow> lua_tostring num (- 1) L;
            L' \<leftarrow> lua_pop 1 L;
            Some (False, S\<lparr>m_state := L'\<rparr>, actions,
                  [LogError ''Editor'' (SETTINGS_PATH @ '': '') msg])
          }
          else load_fields env num actions S L)"

subsection \<open>Notions for stating the properties of Settings\<close>

text \<open>
  The fields of the table that the global \<open>custom\<close> refers to, when it refers to one.
\<close>

definition custom_fields :: "'n lua_State \<Rightarrow> (lua_key \<Rightarrow> 'n lua_value) option" where
  "custom_fields L = (case globals L ''custom'' of LTable a \<Rightarrow> tables L a | _ \<Rightarrow> None)"

text \<open>
  The two overloads of \<open>setValue\<close> as one function of a value that is a \<open>bool\<close> or an
  \<open>int\<close>, and a sequence of such calls.
\<close>

datatype custom_value = BoolValue bool | IntValue c_int

fun setValue :: "string \<Rightarrow> custom_value \<Rightarrow> ('n, 'f) Settings \<Rightarrow> ('n, 'f) Settings option" where
  "setValue name (BoolValue b) S = setValue_bool name b S"
| "setValue name (IntValue i) S = setValue_int name i S"

fun setValues :: "(string \<times> custom_value) list \<Rightarrow> ('n, 'f) Settings \<Rightarrow> ('n, 'f) Settings option" where
  "setValues [] S = Some S"
| "setValues ((name, v) # kvs) S = Option.bind (setValue name v S) (setValues kvs)"

text \<open>The Lua value that \<open>setValue\<close> stores for a value.\<close>

fun stored :: "custom_value \<Rightarrow> 'n lua_value" where
  "stored (BoolValue b) = LBoolean b"
| "stored (IntValue i) = LInteger (int_to_lua_Integer i)"

text \<open>
  Concrete values for the examples: a Lua state with nothing in it, conversions for
  floats that carry no information, and an environment in which the settings file does
  not exist and \<open>luaL_loadfile\<close> fails, leaving its error message on the stack.
\<close>

definition empty_lua_State :: "'n lua_State" where
  "empty_lua_State = \<lparr>stack = [], globals = (\<lambda>_. LNil), tables = Map.empty, next_ref = 0\<rparr>"

definition example_numerics :: "(unit, unit) numerics" where
  "example_numerics =
     \<lparr>float_to_integer = (\<lambda>_. None), integer_to_number = (\<lambda>_. ()), number_to_float = (\<lambda>_. ()),
      number_to_string = (\<lambda>_. ''0''), float_1000 = (), float_200 = ()\<rparr>"

definition failing_environment :: "unit environment" where
  "failing_environment =
     \<lparr>fileExists = (\<lambda>_. False),
      luaL_loadfile = (\<lambda>path L. (False, lua_push (LString ''cannot open studio_default.ini'') L)),
      lua_pcall = (\<lambda>L. (True, L)),
      getPatchFileDevice = False,
      copyString = (\<lambda>str. str),
      LoadDock = (\<lambda>L. L)\<rparr>"

section \<open>core/MTJD: entries, the dependency table and groups\<close>

text \<open>
  core/MTJD/group.h declares the class \<open>Group\<close>, derived from \<open>BaseEntry\<close>: its
  constructor \<open>Group(bool sync_event)\<close>, \<open>addStaticDependency\<close>, the overriding
  \<open>incrementDependency\<close> and \<open>decrementDependency\<close>, \<open>dependencyNotReady\<close>,
  \<open>dependencyReady\<close> and the member \<open>m_static_dependency_table\<close>. The bodies of these
  functions, \<open>BaseEntry\<close> and the dependency table are in files that are not among the
  sources (core/MTJD/base_entry.h, group.cpp). Every definition of this section is
  therefore taken from the specification, and says so.
\<close>

text \<open>
  Modelled from the spec: the identity of an Entry, a stable handle into an arena of
  entries (Design notes: "an index/arena keyed by Entry identity").
\<close>

type_synonym entry_id = nat

text \<open>
  Modelled from the spec: the failures of the graph operations. \<open>CounterUnderflow\<close> is
  the fatal consistency error of a decrement below zero; \<open>InvalidHandle\<close> is the use of
  an identity that names no entry.
\<close>

datatype mtjd_error = CounterUnderflow | InvalidHandle

text \<open>Modelled from the spec: the lifecycle of a Job, "Pending, Ready, Running, Completed".\<close>

datatype lifecycle = Pending | Ready | Running | Completed

text \<open>
  Modelled from the spec: the state of a Group's blocking primitive. A wait on an
  \<open>Armed\<close> event blocks, a wait on a \<open>Released\<close> one returns.
\<close>

datatype event_state = Armed | Released

text \<open>
  Modelled from the spec: the Entry of the data model (\<open>BaseEntry\<close>, not in the sources),
  "dependency_count: integer \<ge> 0". The counter is an \<open>int\<close>, so that staying
  non-negative is a property of the operations and not of the type.
\<close>

record entry =
  dependency_count :: int

text \<open>Modelled from the spec: a Job, an Entry with a lifecycle state.\<close>

record job = entry +
  job_state :: lifecycle

text \<open>
  Modelled from the spec: a Group, an Entry with its fixed member list (the member
  \<open>m_static_dependency_table\<close> of group.h) and the optional blocking primitive (\<open>None\<close>
  when the Group was constructed with \<open>sync_event = false\<close>).
\<close>

record group = entry +
  m_static_dependency_table :: "entry_id list"
  sync_event :: "event_state option"

text \<open>Modelled from the spec: the two variants of Entry, "Job (leaf work) and Group".\<close>

datatype node = JobNode job | GroupNode group

text \<open>
  Modelled from the spec: the calls that an operation leaves to be made. A
  \<open>decrementDependency\<close> of a Group that reaches zero calls \<open>decrementDependency\<close> on the
  Group's dependents, which may be Groups in turn; \<open>Clear owner\<close> is the removal of the
  registration of \<open>owner\<close> that ends \<open>notifyDependents(owner)\<close>.
\<close>

datatype call = Decrement entry_id | Clear entry_id

text \<open>
  Modelled from the spec: the graph. \<open>entries\<close> is the arena of entries,
  \<open>dependency_table\<close> the DependencyTable ("a mapping from an Entry to the set of Entries
  that depend on it"; an Entry with no dependent maps to the empty list, so that an Entry
  "appears as a key only if it has at least one dependent"), \<open>ready_queue\<close> the
  scheduler's queue of the Jobs whose counter reached zero.
\<close>

record system =
  entries :: "node list"
  dependency_table :: "entry_id \<Rightarrow> entry_id list"
  ready_queue :: "entry_id list"

text \<open>Modelled from the spec: the counter of an entry of either variant.\<close>

fun node_count :: "node \<Rightarrow> int" where
  "node_count (JobNode j) = dependency_count j"
| "node_count (GroupNode g) = dependency_count g"

text \<open>Modelled from the spec: the entry that an identity names, if it names one.\<close>

definition lookup :: "system \<Rightarrow> entry_id \<Rightarrow> node option" where
  "lookup s i = (if i < length (entries s) then Some (entries s ! i) else None)"

text \<open>Modelled from the spec: the store of the new state of the entry \<open>i\<close>.\<close>

definition put :: "entry_id \<Rightarrow> node \<Rightarrow> system \<Rightarrow> system" where
  "put i n s = s\<lparr>entries := (entries s)[i := n]\<rparr>"

subsection \<open>Entry\<close>

text \<open>
  Modelled from the spec: \<open>BaseEntry::incrementDependency\<close>, "increases
  dependency_count by one".
\<close>

definition entry_incrementDependency :: "'a entry_scheme \<Rightarrow> 'a entry_scheme" where
  "entry_incrementDependency e = e\<lparr>dependency_count := dependency_count e + 1\<rparr>"

text \<open>
  Modelled from the spec: \<open>BaseEntry::decrementDependency\<close>, "decreases
  dependency_count by one", and "fails (reports a fatal consistency error) if count was
  already zero before the decrement".
\<close>

definition entry_decrementDependency :: "'a entry_scheme \<Rightarrow> mtjd_error + 'a entry_scheme" where
  "entry_decrementDependency e =
     (if dependency_count e = 0 then Inl CounterUnderflow
      else Inr (e\<lparr>dependency_count := dependency_count e - 1\<rparr>))"

subsection \<open>DependencyTable\<close>

text \<open>
  Modelled from the spec: \<open>addDependent(owner, dependent)\<close>, "registers that dependent
  must be decremented when owner completes". The dependents of an owner are a set: a
  dependent that is registered already is not registered again.
\<close>

definition addDependent :: "entry_id \<Rightarrow> entry_id \<Rightarrow> system \<Rightarrow> system" where
  "addDependent owner dependent s =
     s\<lparr>dependency_table :=
         (dependency_table s)(owner := List.insert dependent (dependency_table s owner))\<rparr>"

text \<open>
  Modelled from the spec: the calls of \<open>notifyDependents(owner)\<close>, "for every registered
  dependent of owner, calls decrementDependency() on it, then clears the registration for
  owner".
\<close>

definition notify_calls :: "(entry_id \<Rightarrow> entry_id list) \<Rightarrow> entry_id \<Rightarrow> call list" where
  "notify_calls t owner = map Decrement (t owner) @ [Clear owner]"

text \<open>Modelled from the spec: the removal of the registration of \<open>owner\<close>.\<close>

definition clear_registration :: "entry_id \<Rightarrow> system \<Rightarrow> system" where
  "clear_registration owner s = s\<lparr>dependency_table := (dependency_table s)(owner := [])\<rparr>"

subsection \<open>Group and Job\<close>

text \<open>
  Modelled from the spec: \<open>Group::dependencyReady\<close> (declared in group.h), "counter hits
  zero: release blocking wait if present, propagate to the Group's own dependents via its
  DependencyTable entry". The result is the calls of the propagation and the new state.
\<close>

definition dependencyReady :: "entry_id \<Rightarrow> group \<Rightarrow> system \<Rightarrow> call list \<times> system" where
  "dependencyReady i g s =
     (notify_calls (dependency_table s) i,
      put i (GroupNode (g\<lparr>sync_event := map_option (\<lambda>_. Released) (sync_event g)\<rparr>)) s)"

text \<open>
  Modelled from the spec: \<open>Group::dependencyNotReady\<close> (declared in group.h), "counter
  becomes nonzero again [...] requiring the barrier to re-arm".
\<close>

definition dependencyNotReady :: "entry_id \<Rightarrow> group \<Rightarrow> system \<Rightarrow> system" where
  "dependencyNotReady i g s =
     put i (GroupNode (g\<lparr>sync_event := map_option (\<lambda>_. Armed) (sync_event g)\<rparr>)) s"

text \<open>
  Modelled from the spec: \<open>Group::decrementDependency\<close> (declared in group.h), which
  "delegates to the base counter but additionally triggers dependencyReady()" when the
  counter hits zero.
\<close>

definition group_decrementDependency ::
  "entry_id \<Rightarrow> group \<Rightarrow> system \<Rightarrow> mtjd_error + call list \<times> system" where
  "group_decrementDependency i g s =
     (case entry_decrementDependency g of
        Inl e \<Rightarrow> Inl e
      | Inr g' \<Rightarrow>
          if dependency_count g' = 0 then Inr (dependencyReady i g' s)
          else Inr ([], put i (GroupNode g') s))"

text \<open>
  Modelled from the spec: \<open>Group::incrementDependency\<close> (declared in group.h), which
  delegates to the base counter and triggers \<open>dependencyNotReady()\<close> when the counter
  "becomes nonzero again".
\<close>

definition group_incrementDependency :: "entry_id \<Rightarrow> group \<Rightarrow> system \<Rightarrow> system" where
  "group_incrementDependency i g s =
     (let g' = entry_incrementDependency g in
      if dependency_count g = 0 \<and> dependency_count g' \<noteq> 0 then dependencyNotReady i g' s
      else put i (GroupNode g') s)"

text \<open>
  Modelled from the spec: \<open>decrementDependency\<close> of a Job. "If the resulting count is
  zero, the Entry transitions to ready: for a Job this means eligible for scheduling":
  the transition Pending to Ready of the state machine, and the push onto the ready
  queue.
\<close>

definition job_decrementDependency ::
  "entry_id \<Rightarrow> job \<Rightarrow> system \<Rightarrow> mtjd_error + call list \<times> system" where
  "job_decrementDependency i j s =
     (case entry_decrementDependency j of
        Inl e \<Rightarrow> Inl e
      | Inr j' \<Rightarrow>
          if dependency_count j' = 0 \<and> job_state j' = Pending
          then Inr ([], (put i (JobNode (j'\<lparr>job_state := Ready\<rparr>)) s)
                          \<lparr>ready_queue := ready_queue s @ [i]\<rparr>)
          else Inr ([], put i (JobNode j') s))"

text \<open>
  Modelled from the spec: one call, dispatched on the variant of the entry ("polymorphic
  dispatch"). The result is the calls that it leaves to be made, and the new state.
\<close>

fun perform :: "call \<Rightarrow> system \<Rightarrow> mtjd_error + call list \<times> system" where
  "perform (Decrement i) s =
     (case lookup s i of
        None \<Rightarrow> Inl InvalidHandle
      | Some (JobNode j) \<Rightarrow> job_decrementDependency i j s
      | Some (GroupNode g) \<Rightarrow> group_decrementDependency i g s)"
| "perform (Clear owner) s = Inr ([], clear_registration owner s)"

text \<open>
  The calls are made in the order of a program: the calls that a call leaves are made
  before the calls that follow it, and the first fatal error ends the run. Every run
  ends, with or without an acyclic graph: no call increases a counter, a call that leaves
  further calls decreases one, and a call that decreases none leaves none. \<open>weight\<close> is
  the measure of that argument.
\<close>

definition weight :: "system \<Rightarrow> nat" where
  "weight s = sum_list (map (\<lambda>n. nat (node_count n)) (entries s))"

lemma sum_list_update_nat:
  "i < length xs \<Longrightarrow> sum_list (xs[i := v]) + xs ! i = sum_list xs + (v::nat)"
proof (induction xs arbitrary: i)
  case Nil
  then show ?case by simp
next
  case (Cons x xs)
  then show ?case by (cases i) auto
qed

lemma weight_put:
  assumes "i < length (entries s)"
  shows "weight (put i n s) + nat (node_count (entries s ! i)) = weight s + nat (node_count n)"
  using sum_list_update_nat [of i "map (\<lambda>n. nat (node_count n)) (entries s)" "nat (node_count n)"] assms
  by (simp add: weight_def put_def map_update)

lemma weight_queue [simp]: "weight (s\<lparr>ready_queue := q\<rparr>) = weight s"
  by (simp add: weight_def)

lemma weight_table [simp]: "weight (s\<lparr>dependency_table := t\<rparr>) = weight s"
  by (simp add: weight_def)

lemma perform_weight:
  assumes "perform c s = Inr (cs, s')"
  shows "weight s' < weight s \<or> (weight s' = weight s \<and> cs = [])"
proof (cases c)
  case (Clear owner)
  with assms show ?thesis by (auto simp: clear_registration_def)
next
  case (Decrement i)
  show ?thesis
  proof (cases "lookup s i")
    case None
    with assms Decrement show ?thesis by simp
  next
    case (Some n)
    then have i: "i < length (entries s)" and n: "entries s ! i = n"
      by (auto simp: lookup_def split: if_splits)
    show ?thesis
    proof (cases n)
      case (JobNode j)
      with assms Decrement Some n
        weight_put [OF i, of "JobNode (j\<lparr>dependency_count := dependency_count j - 1\<rparr>)"]
        weight_put [OF i, of "JobNode (j\<lparr>dependency_count := dependency_count j - 1,
            job_state := Ready\<rparr>)"]
      show ?thesis
        by (auto simp: job_decrementDependency_def entry_decrementDependency_def split: if_splits)
    next
      case (GroupNode g)
      with assms Decrement Some n
        weight_put [OF i, of "GroupNode (g\<lparr>dependency_count := dependency_count g - 1\<rparr>)"]
        weight_put [OF i, of "GroupNode (g\<lparr>dependency_count := dependency_count g - 1,
            sync_event := map_option (\<lambda>_. Released) (sync_event g)\<rparr>)"]
      show ?thesis
        by (auto simp: group_decrementDependency_def entry_decrementDependency_def
              dependencyReady_def split: if_splits)
    qed
  qed
qed

text \<open>
  Modelled from the spec: the run of a list of calls, each with the calls that it
  leaves.
\<close>

function dispatch :: "call list \<Rightarrow> system \<Rightarrow> mtjd_error + system" where
  "dispatch [] s = Inr s"
| "dispatch (c # cs) s =
     (case perform c s of
        Inl e \<Rightarrow> Inl e
      | Inr (new_calls, s') \<Rightarrow> dispatch (new_calls @ cs) s')"
  by pat_completeness auto
termination
proof (relation "(\<lambda>(cs, s). weight s) <*mlex*> measure (\<lambda>(cs, s). length cs)")
  show "wf ((\<lambda>(cs, s). weight s) <*mlex*> measure (\<lambda>(cs, s). length cs))"
    by (simp add: wf_mlex)
next
  fix c cs s x new_calls s'
  assume "perform c s = Inr x" and "(new_calls, s') = x"
  then have "perform c s = Inr (new_calls, s')" by simp
  from perform_weight [OF this]
  show "((new_calls @ cs, s'), c # cs, s)
          \<in> (\<lambda>(cs, s). weight s) <*mlex*> measure (\<lambda>(cs, s). length cs)"
    by (auto simp: mlex_prod_def)
qed

declare dispatch.simps [simp del]

subsection \<open>The operations of the graph\<close>

text \<open>Modelled from the spec: the graph before any entry is created.\<close>

definition empty_system :: system where
  "empty_system = \<lparr>entries = [], dependency_table = (\<lambda>_. []), ready_queue = []\<rparr>"

text \<open>
  Modelled from the spec: a new Job, "a callable plus its declared dependencies", of
  which the counter holds the number \<open>n\<close>; it is Pending.
\<close>

definition Job :: "nat \<Rightarrow> job" where
  "Job n = \<lparr>dependency_count = int n, job_state = Pending\<rparr>"

text \<open>
  Modelled from the spec: a new Group with its static members, that is the constructor
  \<open>Group(sync_event)\<close> followed by \<open>addStaticDependency\<close> for each member, "counted at
  construction-equivalent time, before scheduling begins". "A Group's counter is
  initialized to the number of static members", and "a Group with zero static members is
  immediately ready at construction".
\<close>

definition Group :: "bool \<Rightarrow> entry_id list \<Rightarrow> group" where
  "Group sync members =
     \<lparr>dependency_count = int (length members), m_static_dependency_table = members,
      sync_event = (if sync then Some (if members = [] then Released else Armed) else None)\<rparr>"

text \<open>
  Modelled from the spec: the creation of a Job in the graph ("create Job" of the
  graph-construction interface); the result is its identity and the new graph.
\<close>

definition new_job :: "nat \<Rightarrow> system \<Rightarrow> entry_id \<times> system" where
  "new_job n s = (length (entries s), s\<lparr>entries := entries s @ [JobNode (Job n)]\<rparr>)"

text \<open>
  Modelled from the spec: the creation of a Group in the graph ("create Group" of the
  graph-construction interface); the result is its identity and the new graph.
\<close>

definition new_group :: "bool \<Rightarrow> entry_id list \<Rightarrow> system \<Rightarrow> entry_id \<times> system" where
  "new_group sync members s =
     (length (entries s), s\<lparr>entries := entries s @ [GroupNode (Group sync members)]\<rparr>)"

text \<open>
  Modelled from the spec: \<open>incrementDependency()\<close> on the entry \<open>i\<close>, of either variant.
\<close>

definition incrementDependency :: "entry_id \<Rightarrow> system \<Rightarrow> mtjd_error + system" where
  "incrementDependency i s =
     (case lookup s i of
        None \<Rightarrow> Inl InvalidHandle
      | Some (JobNode j) \<Rightarrow> Inr (put i (JobNode (entry_incrementDependency j)) s)
      | Some (GroupNode g) \<Rightarrow> Inr (group_incrementDependency i g s))"

text \<open>
  Modelled from the spec: \<open>decrementDependency()\<close> on the entry \<open>i\<close>, with all that it
  triggers.
\<close>

definition decrementDependency :: "entry_id \<Rightarrow> system \<Rightarrow> mtjd_error + system" where
  "decrementDependency i s = dispatch [Decrement i] s"

text \<open>Modelled from the spec: \<open>notifyDependents(owner)\<close>, with all that it triggers.\<close>

definition notifyDependents :: "entry_id \<Rightarrow> system \<Rightarrow> mtjd_error + system" where
  "notifyDependents owner s = dispatch (notify_calls (dependency_table s) owner) s"

text \<open>
  Modelled from the spec: what a call of the wait operation of a Group does, return or
  block.
\<close>

datatype wait_outcome = WaitReturns | WaitBlocks

text \<open>
  Modelled from the spec: the wait operation of a Group, which "blocks the calling thread
  until the barrier closes". \<open>None\<close>: \<open>g\<close> is no Group with a blocking primitive.
\<close>

definition wait :: "entry_id \<Rightarrow> system \<Rightarrow> wait_outcome option" where
  "wait g s =
     (case lookup s g of
        Some (GroupNode gr) \<Rightarrow>
          map_option (\<lambda>e. case e of Released \<Rightarrow> WaitReturns | Armed \<Rightarrow> WaitBlocks) (sync_event gr)
      | _ \<Rightarrow> None)"

text \<open>
  Modelled from the spec: the states that the operations reach from the empty graph.
  An operation that fails with a fatal error reaches no state.
\<close>

inductive reachable :: "system \<Rightarrow> bool" where
  initial: "reachable empty_system"
| job: "reachable s \<Longrightarrow> reachable (snd (new_job n s))"
| group: "reachable s \<Longrightarrow> reachable (snd (new_group sync members s))"
| dependent: "reachable s \<Longrightarrow> reachable (addDependent owner d s)"
| increment: "reachable s \<Longrightarrow> incrementDependency i s = Inr s' \<Longrightarrow> reachable s'"
| decrement: "reachable s \<Longrightarrow> decrementDependency i s = Inr s' \<Longrightarrow> reachable s'"
| notify: "reachable s \<Longrightarrow> notifyDependents owner s = Inr s' \<Longrightarrow> reachable s'"

subsection \<open>Notions for stating the properties of the graph\<close>

text \<open>
  \<open>decrementDependency\<close> on each entry of a list, one after the other, up to the first
  fatal error.
\<close>

fun decrement_each :: "entry_id list \<Rightarrow> system \<Rightarrow> mtjd_error + system" where
  "decrement_each [] s = Inr s"
| "decrement_each (d # ds) s =
     (case decrementDependency d s of Inl e \<Rightarrow> Inl e | Inr s' \<Rightarrow> decrement_each ds s')"

text \<open>The counter of every entry is at least zero.\<close>

definition counts_nonneg :: "system \<Rightarrow> bool" where
  "counts_nonneg s = list_all (\<lambda>n. 0 \<le> node_count n) (entries s)"

text \<open>No dependent is registered twice against an owner.\<close>

definition tables_distinct :: "system \<Rightarrow> bool" where
  "tables_distinct s = (\<forall>owner. distinct (dependency_table s owner))"

text \<open>The counter of the entry \<open>d\<close>; zero when \<open>d\<close> names no entry.\<close>

definition count_of :: "system \<Rightarrow> entry_id \<Rightarrow> int" where
  "count_of s d = (case lookup s d of Some n \<Rightarrow> node_count n | None \<Rightarrow> 0)"

text \<open>A Group of which the barrier is open: its counter is not zero.\<close>

definition open_group :: "system \<Rightarrow> entry_id \<Rightarrow> bool" where
  "open_group s g =
     (case lookup s g of Some (GroupNode gr) \<Rightarrow> dependency_count gr \<noteq> 0 | _ \<Rightarrow> False)"

text \<open>A Group of which the barrier is closed: its counter is zero.\<close>

definition closed_group :: "system \<Rightarrow> entry_id \<Rightarrow> bool" where
  "closed_group s g =
     (case lookup s g of Some (GroupNode gr) \<Rightarrow> dependency_count gr = 0 | _ \<Rightarrow> False)"

text \<open>The barrier of the Group \<open>g\<close> closed in the run that leads from \<open>s\<close> to \<open>s'\<close>.\<close>

definition closed_between :: "system \<Rightarrow> system \<Rightarrow> entry_id \<Rightarrow> bool" where
  "closed_between s s' g = (open_group s g \<and> closed_group s' g)"

text \<open>
  A whole run of completions: \<open>notifyDependents\<close> for each owner of a list, one after
  the other, up to the first fatal error.
\<close>

fun notify_each :: "entry_id list \<Rightarrow> system \<Rightarrow> mtjd_error + system" where
  "notify_each [] s = Inr s"
| "notify_each (owner # owners) s =
     (case notifyDependents owner s of Inl e \<Rightarrow> Inl e | Inr s' \<Rightarrow> notify_each owners s')"

text \<open>
  The owners that are notified in the run from \<open>s\<close> to \<open>s'\<close>: the owners of the list,
  and the Groups of which the barrier closed, whose \<open>dependencyReady\<close> notifies their
  dependents.
\<close>

definition notified :: "entry_id list \<Rightarrow> system \<Rightarrow> system \<Rightarrow> entry_id set" where
  "notified owners s s' = set owners \<union> {g. closed_between s s' g}"

text \<open>\<open>decrementDependency\<close> on \<open>d\<close> fails: \<open>d\<close> names no entry, or its counter is zero.\<close>

definition stuck :: "system \<Rightarrow> entry_id \<Rightarrow> bool" where
  "stuck s d = (case lookup s d of None \<Rightarrow> True | Some n \<Rightarrow> node_count n = 0)"

text \<open>
  The bookkeeping of a run of the calls \<open>cs\<close> from \<open>s\<close> to \<open>s'\<close>: no entry is created,
  no barrier opens, a Group stays a Group; the registration of an owner is removed when
  the calls clear it or its barrier closed, and is kept as it was otherwise; the counter
  of an entry goes down by the calls on it and by the registrations of it against the
  Groups of which the barrier closed.
\<close>

definition accounted :: "call list \<Rightarrow> system \<Rightarrow> system \<Rightarrow> bool" where
  "accounted cs s s' =
     (length (entries s') = length (entries s)
      \<and> (\<forall>g. open_group s' g \<longrightarrow> open_group s g)
      \<and> (\<forall>g. closed_group s g \<longrightarrow> closed_group s' g)
      \<and> (\<forall>g. open_group s g \<longrightarrow> open_group s' g \<or> closed_group s' g)
      \<and> (\<forall>owner. dependency_table s' owner =
            (if Clear owner \<in> set cs \<or> closed_between s s' owner then []
             else dependency_table s owner))
      \<and> (\<forall>d. count_of s d =
            count_of s' d + int (count_list cs (Decrement d))
              + (\<Sum>g | closed_between s s' g. int (count_list (dependency_table s g) d))))"

text \<open>The same bookkeeping for a run of notifications of the owners of a list.\<close>

definition settled :: "entry_id list \<Rightarrow> system \<Rightarrow> system \<Rightarrow> bool" where
  "settled owners s s' =
     ((\<forall>g. open_group s' g \<longrightarrow> open_group s g)
      \<and> (\<forall>g. closed_group s g \<longrightarrow> closed_group s' g)
      \<and> (\<forall>g. open_group s g \<longrightarrow> open_group s' g \<or> closed_group s' g)
      \<and> (\<forall>owner. dependency_table s' owner =
            (if owner \<in> notified owners s s' then [] else dependency_table s owner))
      \<and> (\<forall>d. count_of s d =
            count_of s' d
              + (\<Sum>owner \<in> notified owners s s'. int (count_list (dependency_table s owner) d))))"


text \<open>
  An example, built with the operations: the Job 0 with no dependency, the Job 1 with two
  dependencies, the Group 2 with a blocking primitive and the static member Job 0; Job 1
  is registered as a dependent of Job 0 and of Group 2.
\<close>

definition example_graph :: system where
  "example_graph =
     addDependent 2 1
       (addDependent 0 1
          (snd (new_group True [0] (snd (new_job 2 (snd (new_job 0 empty_system)))))))"

text \<open>
  A second example, with a cascade: the Job 0, the Group 1 with a blocking primitive and
  the static member Job 0, the Job 2 with two dependencies, the Job 3. Group 1 is
  registered as a dependent of Job 0, and Job 2 as a dependent of Group 1 and of Job 3.
\<close>

definition example_cascade :: system where
  "example_cascade =
     addDependent 3 2
       (addDependent 1 2
          (addDependent 0 1
             (snd (new_job 0 (snd (new_job 2 (snd (new_group True [0]
                (snd (new_job 0 empty_system))))))))))"

text \<open>
  The second example after \<open>notifyDependents\<close> of Job 0: the barrier of Group 1 has
  closed and its event is released, the counter of Job 2 is one, the registrations of
  Job 0 and of Group 1 are removed.
\<close>

definition example_cascade_notified :: system where
  "example_cascade_notified =
     clear_registration 0
       (clear_registration 1
          (put 2 (JobNode (Job 1))
             (put 1 (GroupNode ((Group True [0])\<lparr>dependency_count := 0, sync_event := Some Released\<rparr>))
                example_cascade)))"


section \<open>Properties of Blob\<close>

text \<open>
  C10. For every Blob and every \<open>(data, size)\<close>, after \<open>create(data, size)\<close> the read
  position is zero and \<open>getBufferSize()\<close> returns \<open>size\<close>; after \<open>clearBuffer()\<close> the
  read position and \<open>getBufferSize()\<close> are both zero.
\<close>

theorem blob_create_clearBuffer:
  "m_pos (create data sz b) = 0
   \<and> getBufferSize (create data sz b) = sz
   \<and> m_pos (clearBuffer b) = 0
   \<and> getBufferSize (clearBuffer b) = 0"
  by (simp add: create_def clearBuffer_def getBufferSize_def)


section \<open>Properties of Settings\<close>

subsection \<open>Custom values\<close>

text \<open>An \<open>int\<close> survives the way into a \<open>lua_Integer\<close> and back.\<close>

lemma int_roundtrip: "lua_Integer_to_int (int_to_lua_Integer v) = v"
  unfolding lua_Integer_to_int_def int_to_lua_Integer_def
  by (rule scast_up_scast_id) (simp add: is_up)

lemma custom_fieldsE:
  assumes "custom_fields L = Some t"
  obtains a where "globals L ''custom'' = LTable a" and "tables L a = Some t"
  using assms by (auto simp: custom_fields_def split: lua_value.splits)

lemma setValue_Some:
  assumes "custom_fields (m_state S) = Some t"
  shows "\<exists>S1. setValue name v S = Some S1 \<and> custom_fields (m_state S1) = Some (t(KString name := stored v))
     \<and> stack (m_state S1) = stack (m_state S)"
proof -
  from assms obtain a where a: "globals (m_state S) ''custom'' = LTable a" "tables (m_state S) a = Some t"
    by (rule custom_fieldsE)
  show ?thesis
    by (cases v)
       (simp_all add: a custom_fields_def setValue_bool_def setValue_int_def lua_getglobal_def
          lua_setfield_def lua_pushboolean_def lua_pushinteger_def lua_push_def lua_pop_def
          index2value_def)
qed

lemma getValue_int_custom:
  assumes "custom_fields (m_state S) = Some t"
  shows "getValue_int num name d S =
      Some (case t (KString name) of
              LInteger i \<Rightarrow> lua_Integer_to_int i
            | LFloat x \<Rightarrow> lua_Integer_to_int (case float_to_integer num x of Some i \<Rightarrow> i | None \<Rightarrow> 0)
            | _ \<Rightarrow> d, S)"
  using assms
  by (auto simp: custom_fields_def getValue_int_def getIntegerField_def lua_getglobal_def lua_getfield_def
        lua_tointeger_def lua_push_def lua_pop_def index2value_def
        split: lua_value.splits option.splits)

lemma getValue_bool_custom:
  assumes "custom_fields (m_state S) = Some t"
  shows "getValue_bool name d S =
      Some (case t (KString name) of LBoolean b \<Rightarrow> b | _ \<Rightarrow> d, S)"
  using assms
  by (auto simp: custom_fields_def getValue_bool_def lua_getglobal_def lua_getfield_def
        lua_toboolean_def lua_push_def lua_pop_def index2value_def
        split: lua_value.splits option.splits)


lemma Settings_ctor_custom:
  "\<exists>S0. Settings_ctor num opened0 L0 = Some S0 \<and> custom_fields (m_state S0) = Some (\<lambda>_. LNil)"
  by (simp add: Settings_ctor_def lua_setglobal_def lua_newtable_def lua_push_def custom_fields_def)

lemma setValues_custom:
  assumes "custom_fields (m_state S) = Some t"
  shows "\<exists>S' t'. setValues kvs S = Some S' \<and> custom_fields (m_state S') = Some t'
           \<and> (name \<notin> fst ` set kvs \<longrightarrow> t' (KString name) = t (KString name))"
  using assms
proof (induction kvs arbitrary: S t)
  case Nil
  then show ?case by simp
next
  case (Cons kv kvs)
  obtain k v where kv: "kv = (k, v)" by (cases kv)
  from setValue_Some [OF Cons.prems, of k v]
  obtain S1 where S1: "setValue k v S = Some S1"
    "custom_fields (m_state S1) = Some (t(KString k := stored v))" by blast
  from Cons.IH [OF S1(2)]
  obtain S' t' where S': "setValues kvs S1 = Some S'" "custom_fields (m_state S') = Some t'"
    "name \<notin> fst ` set kvs \<longrightarrow> t' (KString name) = (t(KString k := stored v)) (KString name)"
    by blast
  show ?case
    using S1(1) S' by (auto simp: kv)
qed


text \<open>
  C8. Custom values round-trip. In a \<open>Settings\<close> whose global \<open>custom\<close> is a table
  (as the constructor leaves it, and as \<open>setValue\<close> keeps it), \<open>setValue(name, v)\<close>
  followed by \<open>getValue(name, d)\<close> returns \<open>v\<close>, for every name, every default \<open>d\<close>
  and every \<open>int\<close> or \<open>bool\<close> value \<open>v\<close> (read with the overload of its own type).
  For a name never set, that is after the constructor and any calls of \<open>setValue\<close> for
  other names, \<open>getValue(name, d)\<close> returns \<open>d\<close>. Every call returns, and \<open>getValue\<close>
  leaves the object as it was.
\<close>

theorem custom_values_roundtrip:
  "(custom_fields (m_state S) \<noteq> None \<longrightarrow>
      (\<exists>S1. setValue_int name v S = Some S1 \<and> getValue_int num name d S1 = Some (v, S1))
    \<and> (\<exists>S1. setValue_bool name b S = Some S1 \<and> getValue_bool name db S1 = Some (b, S1)))
   \<and> (name \<notin> fst ` set kvs \<longrightarrow>
      (\<exists>S0 S'. Settings_ctor num opened0 L0 = Some S0 \<and> setValues kvs S0 = Some S'
         \<and> getValue_int num name d S' = Some (d, S')
         \<and> getValue_bool name db S' = Some (db, S')))"
proof (intro conjI impI)
  assume "custom_fields (m_state S) \<noteq> None"
  then obtain t where t: "custom_fields (m_state S) = Some t" by blast
  from setValue_Some [OF t, of name "IntValue v"]
  obtain S1 where S1: "setValue_int name v S = Some S1"
    "custom_fields (m_state S1) = Some (t(KString name := LInteger (int_to_lua_Integer v)))"
    by auto
  have "getValue_int num name d S1 = Some (v, S1)"
    by (simp add: getValue_int_custom [OF S1(2)] int_roundtrip)
  with S1(1) show "\<exists>S1. setValue_int name v S = Some S1 \<and> getValue_int num name d S1 = Some (v, S1)"
    by blast
  from setValue_Some [OF t, of name "BoolValue b"]
  obtain S2 where S2: "setValue_bool name b S = Some S2"
    "custom_fields (m_state S2) = Some (t(KString name := LBoolean b))"
    by auto
  have "getValue_bool name db S2 = Some (b, S2)"
    by (simp add: getValue_bool_custom [OF S2(2)])
  with S2(1) show "\<exists>S1. setValue_bool name b S = Some S1 \<and> getValue_bool name db S1 = Some (b, S1)"
    by blast
next
  assume fresh: "name \<notin> fst ` set kvs"
  obtain S0 where S0: "Settings_ctor num opened0 L0 = Some S0"
    "custom_fields (m_state S0) = Some (\<lambda>_. LNil)"
    using Settings_ctor_custom by blast
  from setValues_custom [OF S0(2), of kvs name] fresh
  obtain S' t' where S': "setValues kvs S0 = Some S'" "custom_fields (m_state S') = Some t'"
    "t' (KString name) = LNil" by auto
  have "getValue_int num name d S' = Some (d, S')"
    by (simp add: getValue_int_custom [OF S'(2)] S'(3))
  moreover have "getValue_bool name db S' = Some (db, S')"
    by (simp add: getValue_bool_custom [OF S'(2)] S'(3))
  ultimately show "\<exists>S0 S'. Settings_ctor num opened0 L0 = Some S0 \<and> setValues kvs S0 = Some S'
         \<and> getValue_int num name d S' = Some (d, S')
         \<and> getValue_bool name db S' = Some (db, S')"
    using S0(1) S'(1) by blast
qed


theorem custom_values_roundtrip_witness:
  "\<exists>S0. Settings_ctor example_numerics False empty_lua_State = Some S0
     \<and> custom_fields (m_state S0) \<noteq> None
     \<and> (\<exists>S1. setValue_int ''fov'' 60 S0 = Some S1
            \<and> getValue_int example_numerics ''fov'' 0 S1 = Some (60, S1))
     \<and> (\<exists>S1. setValue_bool ''fov'' True S0 = Some S1
            \<and> getValue_bool ''fov'' False S1 = Some (True, S1))
     \<and> ''grid'' \<notin> fst ` set [(''fov'', IntValue 60)]
     \<and> (\<exists>S'. setValues [(''fov'', IntValue 60)] S0 = Some S'
            \<and> getValue_int example_numerics ''grid'' 0 S' = Some (0, S')
            \<and> getValue_bool ''grid'' False S' = Some (False, S'))"
proof -
  obtain S0 :: "(unit, unit) Settings"
    where S0: "Settings_ctor example_numerics False empty_lua_State = Some S0"
      and c: "custom_fields (m_state S0) \<noteq> None"
    using Settings_ctor_custom [of example_numerics False empty_lua_State] by auto
  have fresh: "''grid'' \<notin> fst ` set [(''fov'', IntValue 60)]" by simp
  note set_then_get =
    custom_values_roundtrip
      [of S0 "''fov''" 60 example_numerics 0 True False "[]" False empty_lua_State]
  note never_set =
    custom_values_roundtrip
      [of S0 "''grid''" 0 example_numerics 0 False False "[(''fov'', IntValue 60)]" False
          empty_lua_State]
  from set_then_get never_set S0 c fresh
  show ?thesis by auto
qed

subsection \<open>Settings::load\<close>

text \<open>
  C9. \<open>load\<close> is atomic on error. If loading or executing the settings file fails
  (\<open>errors\<close> is true at the \<open>if\<close>; Lua has then left the error message on the stack),
  \<open>load\<close> returns false, and the object differs from the one before the call in the Lua
  state at most: the window geometry, the maximized flag, the panel flags, the autosave
  time, the mouse sensitivities and \<open>data_dir\<close> are the ones before the call, and so are
  the actions with their shortcuts.
\<close>

theorem load_error_retains_fields:
  assumes "fst (load_errors env (m_state S))"
    and "stack (snd (load_errors env (m_state S))) \<noteq> []"
  shows "\<exists>L' eff. load env num actions S = Some (False, S\<lparr>m_state := L'\<rparr>, actions, eff)"
proof -
  obtain errors L where eL: "load_errors env (m_state S) = (errors, L)"
    by (cases "load_errors env (m_state S)")
  with assms have e: "errors = True" and "stack L \<noteq> []" by simp_all
  then obtain v st where st: "stack L = v # st" by (cases "stack L") auto
  have 1: "lua_tostring num (- 1) L \<noteq> None"
    by (simp add: lua_tostring_def index2value_def st)
  have 2: "lua_pop 1 L \<noteq> None"
    by (simp add: lua_pop_def st)
  from 1 2 show ?thesis
    unfolding load_def eL e by auto
qed


theorem load_error_retains_fields_witness:
  "\<exists>S0. Settings_ctor example_numerics False empty_lua_State = Some S0
     \<and> fst (load_errors failing_environment (m_state S0))
     \<and> stack (snd (load_errors failing_environment (m_state S0))) \<noteq> []
     \<and> (\<exists>L' eff. load failing_environment example_numerics [] S0
                     = Some (False, S0\<lparr>m_state := L'\<rparr>, [], eff))"
proof -
  obtain S0 :: "(unit, unit) Settings" where S0: "Settings_ctor example_numerics False empty_lua_State = Some S0"
    using Settings_ctor_custom by blast
  have h1: "fst (load_errors failing_environment (m_state S0))"
    by (simp add: load_errors_def failing_environment_def)
  have h2: "stack (snd (load_errors failing_environment (m_state S0))) \<noteq> []"
    by (simp add: load_errors_def failing_environment_def lua_push_def)
  from load_error_retains_fields [OF h1 h2, of example_numerics "[]"] S0 h1 h2
  show ?thesis by blast
qed


section \<open>Properties of the MTJD graph\<close>

subsection \<open>Runs of calls\<close>

text \<open>
  What every call preserves, every run preserves; and a run of two lists of calls is the
  run of the first followed by the run of the second.
\<close>

lemma dispatch_preserves:
  assumes step: "\<And>c s cs s'. P s \<Longrightarrow> perform c s = Inr (cs, s') \<Longrightarrow> P s'"
  shows "P s \<Longrightarrow> dispatch calls s = Inr s' \<Longrightarrow> P s'"
proof (induction calls s rule: dispatch.induct)
  case (1 s)
  then show ?case by (simp add: dispatch.simps)
next
  case (2 c cs s)
  from "2.prems"(2) obtain new s1 where p: "perform c s = Inr (new, s1)"
    and d: "dispatch (new @ cs) s1 = Inr s'"
    by (auto simp: dispatch.simps split: sum.splits)
  from step [OF "2.prems"(1) p] have "P s1" .
  from "2.IH" [OF p refl this d] show ?case .
qed

lemma dispatch_append:
  "dispatch (cs1 @ cs2) s = (case dispatch cs1 s of Inl e \<Rightarrow> Inl e | Inr s' \<Rightarrow> dispatch cs2 s')"
proof (induction cs1 s rule: dispatch.induct)
  case (1 s)
  then show ?case by (simp add: dispatch.simps)
next
  case (2 c cs s)
  show ?case
  proof (cases "perform c s")
    case (Inl e)
    then show ?thesis by (simp add: dispatch.simps)
  next
    case (Inr r)
    obtain new s1 where r: "r = (new, s1)" by (cases r)
    from "2.IH" [OF Inr r [symmetric]] Inr r show ?thesis by (simp add: dispatch.simps)
  qed
qed

lemma dispatch_single:
  "dispatch [c] s = (case perform c s of Inl e \<Rightarrow> Inl e | Inr (new, s') \<Rightarrow> dispatch new s')"
  by (simp add: dispatch.simps split: sum.splits)

lemma dependency_table_put [simp]: "dependency_table (put i n s) = dependency_table s"
  by (simp add: put_def)

lemma counts_nonneg_put:
  "counts_nonneg s \<Longrightarrow> 0 \<le> node_count n \<Longrightarrow> counts_nonneg (put i n s)"
  unfolding counts_nonneg_def put_def list_all_iff
  using set_update_subset_insert [of "entries s" i n] by auto

lemma counts_nonneg_lookup:
  "counts_nonneg s \<Longrightarrow> lookup s i = Some n \<Longrightarrow> 0 \<le> node_count n"
  unfolding counts_nonneg_def lookup_def list_all_iff
  by (auto split: if_splits)

lemma counts_nonneg_upd [simp]:
  "counts_nonneg (s\<lparr>ready_queue := q\<rparr>) = counts_nonneg s"
  "counts_nonneg (s\<lparr>dependency_table := t\<rparr>) = counts_nonneg s"
  by (simp_all add: counts_nonneg_def)

lemma perform_counts_nonneg:
  assumes "counts_nonneg s" and "perform c s = Inr (cs, s')"
  shows "counts_nonneg s'"
proof (cases c)
  case (Clear owner)
  with assms show ?thesis by (auto simp: clear_registration_def)
next
  case (Decrement i)
  show ?thesis
  proof (cases "lookup s i")
    case None
    with assms Decrement show ?thesis by simp
  next
    case (Some n)
    note nn = counts_nonneg_lookup [OF assms(1) Some]
    show ?thesis
    proof (cases n)
      case (JobNode j)
      with assms Decrement Some nn show ?thesis
        by (auto simp: job_decrementDependency_def entry_decrementDependency_def
              intro!: counts_nonneg_put split: if_splits)
    next
      case (GroupNode g)
      with assms Decrement Some nn show ?thesis
        by (auto simp: group_decrementDependency_def entry_decrementDependency_def
              dependencyReady_def intro!: counts_nonneg_put split: if_splits)
    qed
  qed
qed

lemma dispatch_counts_nonneg:
  "counts_nonneg s \<Longrightarrow> dispatch calls s = Inr s' \<Longrightarrow> counts_nonneg s'"
  by (rule dispatch_preserves [where P = counts_nonneg]) (rule perform_counts_nonneg)

lemma counts_nonneg_append:
  "counts_nonneg s \<Longrightarrow> 0 \<le> node_count n \<Longrightarrow> counts_nonneg (s\<lparr>entries := entries s @ [n]\<rparr>)"
  by (simp add: counts_nonneg_def)

lemma group_increment_counts_nonneg:
  "counts_nonneg s \<Longrightarrow> 0 \<le> dependency_count g \<Longrightarrow> counts_nonneg (group_incrementDependency i g s)"
  by (auto simp: group_incrementDependency_def dependencyNotReady_def entry_incrementDependency_def
        Let_def intro!: counts_nonneg_put)

lemma reachable_counts_nonneg: "reachable s \<Longrightarrow> counts_nonneg s"
proof (induction rule: reachable.induct)
  case initial
  show ?case by (simp add: counts_nonneg_def empty_system_def)
next
  case (job s n)
  then show ?case by (simp add: new_job_def Job_def counts_nonneg_append)
next
  case (group s sync members)
  then show ?case by (simp add: new_group_def Group_def counts_nonneg_append)
next
  case (dependent s owner d)
  then show ?case by (simp add: addDependent_def)
next
  case (increment s i s')
  then show ?case
    by (auto simp: incrementDependency_def entry_incrementDependency_def
          split: option.splits node.splits
          dest: counts_nonneg_lookup intro!: group_increment_counts_nonneg counts_nonneg_put)
next
  case (decrement s i s')
  then show ?case by (auto simp: decrementDependency_def elim: dispatch_counts_nonneg)
next
  case (notify s owner s')
  then show ?case by (auto simp: notifyDependents_def elim: dispatch_counts_nonneg)
qed


lemma example_graph_reachable: "reachable example_graph"
  unfolding example_graph_def by (intro reachable.intros)

lemma example_graph_entries:
  "entries example_graph = [JobNode (Job 0), JobNode (Job 2), GroupNode (Group True [0])]"
  by (simp add: example_graph_def addDependent_def new_group_def new_job_def empty_system_def)

lemma example_graph_table:
  "dependency_table example_graph 0 = [1]"
  "dependency_table example_graph 1 = []"
  "dependency_table example_graph 2 = [1]"
  by (simp_all add: example_graph_def addDependent_def new_group_def new_job_def empty_system_def)

lemma lookup_put_same:
  "lookup s i = Some n \<Longrightarrow> lookup (put i n' s) i = Some n'"
  by (auto simp: lookup_def put_def split: if_splits)


subsection \<open>The counter of an Entry\<close>

text \<open>
  C1. The dependency counter of an Entry never becomes negative. \<open>decrementDependency\<close>
  on an entry, Job or Group, of which the counter is zero reports the fatal consistency
  error \<open>CounterUnderflow\<close> and yields no state, instead of decrementing; and in every
  state that the operations reach from the empty graph, the counter of every entry is at
  least zero.
\<close>

theorem dependency_count_never_negative:
  "(lookup s i = Some n \<and> node_count n = 0 \<longrightarrow> decrementDependency i s = Inl CounterUnderflow)
   \<and> (reachable s \<longrightarrow> (\<forall>n \<in> set (entries s). 0 \<le> node_count n))"
proof (intro conjI impI)
  assume "lookup s i = Some n \<and> node_count n = 0"
  then show "decrementDependency i s = Inl CounterUnderflow"
    by (cases n)
       (simp_all add: decrementDependency_def dispatch.simps job_decrementDependency_def
          group_decrementDependency_def entry_decrementDependency_def)
next
  assume "reachable s"
  then show "\<forall>n \<in> set (entries s). 0 \<le> node_count n"
    using reachable_counts_nonneg by (simp add: counts_nonneg_def list_all_iff)
qed

theorem dependency_count_never_negative_witness:
  "lookup (snd (new_job 0 empty_system)) 0 = Some (JobNode (Job 0))
   \<and> node_count (JobNode (Job 0)) = 0
   \<and> decrementDependency 0 (snd (new_job 0 empty_system)) = Inl CounterUnderflow
   \<and> reachable example_graph
   \<and> list_all (\<lambda>n. 0 \<le> node_count n) (entries example_graph)"
proof -
  have l: "lookup (snd (new_job 0 empty_system)) 0 = Some (JobNode (Job 0))
             \<and> node_count (JobNode (Job 0)) = 0"
    by (simp add: new_job_def empty_system_def lookup_def Job_def)
  note r = example_graph_reachable
  from l r
    dependency_count_never_negative [of "snd (new_job 0 empty_system)" 0 "JobNode (Job 0)"]
    dependency_count_never_negative [of example_graph]
  show ?thesis by (simp add: list_all_iff)
qed

subsection \<open>notifyDependents\<close>

lemma dispatch_map_Decrement:
  "dispatch (map Decrement ds) s = decrement_each ds s"
proof (induction ds arbitrary: s)
  case Nil
  show ?case by (simp add: dispatch.simps)
next
  case (Cons d ds)
  have "dispatch (map Decrement (d # ds)) s = dispatch ([Decrement d] @ map Decrement ds) s"
    by simp
  also have "\<dots> = (case dispatch [Decrement d] s of Inl e \<Rightarrow> Inl e
                    | Inr s' \<Rightarrow> dispatch (map Decrement ds) s')"
    by (rule dispatch_append)
  finally show ?case
    by (simp add: Cons.IH decrementDependency_def split: sum.splits)
qed

lemma notifyDependents_unfold:
  "notifyDependents owner s =
     (case decrement_each (dependency_table s owner) s of
        Inl e \<Rightarrow> Inl e
      | Inr s' \<Rightarrow> Inr (clear_registration owner s'))"
  by (simp add: notifyDependents_def notify_calls_def dispatch_append dispatch_map_Decrement
        dispatch.simps split: sum.splits)

lemma notifyDependents_cleared:
  assumes "dependency_table s owner = []"
  shows "notifyDependents owner s = Inr s"
proof -
  have "clear_registration owner s = s"
    using assms by (simp add: clear_registration_def fun_upd_idem)
  then show ?thesis
    by (simp add: notifyDependents_unfold assms)
qed

lemma perform_tables_distinct:
  assumes "tables_distinct s" and "perform c s = Inr (cs, s')"
  shows "tables_distinct s'"
proof -
  have "dependency_table s' = dependency_table s
          \<or> (\<exists>owner. dependency_table s' = (dependency_table s)(owner := []))"
    using assms(2)
    by (cases c)
       (auto simp: job_decrementDependency_def group_decrementDependency_def dependencyReady_def
          entry_decrementDependency_def clear_registration_def
          split: option.splits node.splits if_splits)
  with assms(1) show ?thesis
    by (auto simp: tables_distinct_def)
qed

lemma dispatch_tables_distinct:
  "tables_distinct s \<Longrightarrow> dispatch calls s = Inr s' \<Longrightarrow> tables_distinct s'"
  by (rule dispatch_preserves [where P = tables_distinct]) (rule perform_tables_distinct)

lemma tables_distinct_upd [simp]:
  "tables_distinct (s\<lparr>ready_queue := q\<rparr>) = tables_distinct s"
  "tables_distinct (s\<lparr>entries := es\<rparr>) = tables_distinct s"
  "tables_distinct (put i n s) = tables_distinct s"
  by (simp_all add: tables_distinct_def)

lemma tables_distinct_group_increment [simp]:
  "tables_distinct (group_incrementDependency i g s) = tables_distinct s"
  by (simp add: group_incrementDependency_def dependencyNotReady_def Let_def)

lemma reachable_tables_distinct: "reachable s \<Longrightarrow> tables_distinct s"
proof (induction rule: reachable.induct)
  case initial
  show ?case by (simp add: tables_distinct_def empty_system_def)
next
  case (job s n)
  then show ?case by (simp add: new_job_def)
next
  case (group s sync members)
  then show ?case by (simp add: new_group_def)
next
  case (dependent s owner d)
  then show ?case by (simp add: addDependent_def tables_distinct_def)
next
  case (increment s i s')
  then show ?case
    by (auto simp: incrementDependency_def split: option.splits node.splits)
next
  case (decrement s i s')
  then show ?case by (auto simp: decrementDependency_def elim: dispatch_tables_distinct)
next
  case (notify s owner s')
  then show ?case by (auto simp: notifyDependents_def elim: dispatch_tables_distinct)
qed


subsubsection \<open>What a call does\<close>

lemma perform_Decrement_shape:
  assumes "perform (Decrement i) s = Inr (new, s')"
  shows "\<exists>n n'. lookup s i = Some n \<and> node_count n \<noteq> 0
           \<and> s' = (put i n' s)\<lparr>ready_queue := ready_queue s'\<rparr>
           \<and> node_count n' = node_count n - 1
           \<and> ((\<exists>j j'. n = JobNode j \<and> n' = JobNode j' \<and> new = [])
              \<or> (\<exists>g g'. n = GroupNode g \<and> n' = GroupNode g'
                    \<and> new = (if dependency_count g = 1
                              then notify_calls (dependency_table s) i else [])))"
proof (cases "lookup s i")
  case None
  with assms show ?thesis by simp
next
  case (Some n)
  show ?thesis
  proof (cases n)
    case (JobNode j)
    with assms Some show ?thesis
      by (auto simp: job_decrementDependency_def entry_decrementDependency_def put_def
            split: if_splits)
  next
    case (GroupNode g)
    with assms Some show ?thesis
      by (auto simp: group_decrementDependency_def entry_decrementDependency_def put_def
            dependencyReady_def split: if_splits)
  qed
qed


lemma perform_Decrement_facts:
  assumes "perform (Decrement i) s = Inr (new, s')"
  shows "length (entries s') = length (entries s)"
    and "dependency_table s' = dependency_table s"
    and "\<And>k. k \<noteq> i \<Longrightarrow> lookup s' k = lookup s k"
    and "\<And>d. count_of s' d = count_of s d - (if d = i then 1 else 0)"
    and "count_of s i \<noteq> 0"
    and "\<not> stuck s i"
    and "\<And>g. open_group s' g = (open_group s g \<and> \<not> (g = i \<and> count_of s i = 1))"
    and "\<And>g. closed_group s' g = (closed_group s g \<or> (g = i \<and> open_group s i \<and> count_of s i = 1))"
    and "new = (if open_group s i \<and> count_of s i = 1
                then notify_calls (dependency_table s) i else [])"
proof -
  from perform_Decrement_shape [OF assms]
  obtain n n' where n: "lookup s i = Some n" "node_count n \<noteq> 0"
    and s': "s' = (put i n' s)\<lparr>ready_queue := ready_queue s'\<rparr>"
    and n': "node_count n' = node_count n - 1"
    and kind: "(\<exists>j j'. n = JobNode j \<and> n' = JobNode j' \<and> new = [])
              \<or> (\<exists>g g'. n = GroupNode g \<and> n' = GroupNode g'
                    \<and> new = (if dependency_count g = 1
                              then notify_calls (dependency_table s) i else []))"
    by blast
  from n have i: "i < length (entries s)" "entries s ! i = n"
    by (auto simp: lookup_def split: if_splits)
  have es: "entries s' = (entries s)[i := n']"
    by (subst s') (simp add: put_def)
  show "length (entries s') = length (entries s)"
    by (simp add: es)
  show "dependency_table s' = dependency_table s"
    by (subst s') (simp add: put_def)
  have li: "lookup s' i = Some n'"
    using i by (simp add: lookup_def es)
  show other: "\<And>k. k \<noteq> i \<Longrightarrow> lookup s' k = lookup s k"
    by (simp add: lookup_def es)
  show "\<And>d. count_of s' d = count_of s d - (if d = i then 1 else 0)"
    using n n' li other by (simp add: count_of_def)
  show "count_of s i \<noteq> 0"
    using n by (simp add: count_of_def)
  show "\<not> stuck s i"
    using n by (simp add: stuck_def)
  have views_i:
    "open_group s' i = (open_group s i \<and> count_of s i \<noteq> 1)
     \<and> closed_group s' i = (open_group s i \<and> count_of s i = 1)
     \<and> \<not> closed_group s i"
    using kind
  proof
    assume "\<exists>j j'. n = JobNode j \<and> n' = JobNode j' \<and> new = []"
    then show ?thesis
      using n li by (auto simp: open_group_def closed_group_def)
  next
    assume "\<exists>g g'. n = GroupNode g \<and> n' = GroupNode g'
                    \<and> new = (if dependency_count g = 1
                              then notify_calls (dependency_table s) i else [])"
    then obtain g g' where "n = GroupNode g" "n' = GroupNode g'" by blast
    then show ?thesis
      using n n' li by (auto simp: open_group_def closed_group_def count_of_def)
  qed
  show "open_group s' g = (open_group s g \<and> \<not> (g = i \<and> count_of s i = 1))" for g
  proof (cases "g = i")
    case True
    then show ?thesis using views_i by simp
  next
    case False
    then show ?thesis by (simp add: open_group_def other)
  qed
  show "closed_group s' g = (closed_group s g \<or> (g = i \<and> open_group s i \<and> count_of s i = 1))" for g
  proof (cases "g = i")
    case True
    then show ?thesis using views_i by simp
  next
    case False
    then show ?thesis by (simp add: closed_group_def other)
  qed
  show "new = (if open_group s i \<and> count_of s i = 1
                then notify_calls (dependency_table s) i else [])"
    using kind
  proof
    assume "\<exists>j j'. n = JobNode j \<and> n' = JobNode j' \<and> new = []"
    then show ?thesis using n by (auto simp: open_group_def)
  next
    assume "\<exists>g g'. n = GroupNode g \<and> n' = GroupNode g'
                    \<and> new = (if dependency_count g = 1
                              then notify_calls (dependency_table s) i else [])"
    then show ?thesis using n by (auto simp: open_group_def count_of_def)
  qed
qed

lemma perform_Clear_facts:
  assumes "perform (Clear owner) s = Inr (new, s')"
  shows "new = []"
    and "entries s' = entries s"
    and "dependency_table s' = (dependency_table s)(owner := [])"
  using assms by (auto simp: clear_registration_def)

lemma entries_eq_views:
  assumes "entries s' = entries s"
  shows "lookup s' = lookup s" "count_of s' = count_of s" "open_group s' = open_group s"
    "closed_group s' = closed_group s" "stuck s' = stuck s"
  using assms
  by (auto simp: lookup_def count_of_def open_group_def closed_group_def stuck_def fun_eq_iff)

lemma perform_stuck:
  assumes "perform c s = Inr (new, s')" and "stuck s z"
  shows "stuck s' z"
proof (cases c)
  case (Clear owner)
  with assms perform_Clear_facts(2) [of owner s new s'] entries_eq_views(5) [of s' s]
  show ?thesis by simp
next
  case (Decrement i)
  with assms have p: "perform (Decrement i) s = Inr (new, s')" by simp
  from perform_Decrement_facts(6) [OF p] assms(2) have "z \<noteq> i" by auto
  from perform_Decrement_facts(3) [OF p this] assms(2) show ?thesis
    by (simp add: stuck_def)
qed

lemma perform_Decrement_stuck:
  "stuck s d \<Longrightarrow> \<exists>e. perform (Decrement d) s = Inl e"
  by (auto simp: stuck_def job_decrementDependency_def group_decrementDependency_def
        entry_decrementDependency_def split: option.splits node.splits)

lemma dispatch_doomed:
  "stuck s d \<Longrightarrow> Decrement d \<in> set cs \<Longrightarrow> \<exists>e. dispatch cs s = Inl e"
proof (induction cs s rule: dispatch.induct)
  case (1 s)
  then show ?case by simp
next
  case (2 c cs s)
  show ?case
  proof (cases "perform c s")
    case (Inl e)
    then show ?thesis by (simp add: dispatch.simps)
  next
    case (Inr r)
    obtain new s1 where r: "r = (new, s1)" by (cases r)
    with Inr have p: "perform c s = Inr (new, s1)" by simp
    from perform_Decrement_stuck [OF "2.prems"(1)] p have "c \<noteq> Decrement d" by auto
    with "2.prems"(2) have "Decrement d \<in> set (new @ cs)" by simp
    from "2.IH" [OF Inr r [symmetric] perform_stuck [OF p "2.prems"(1)] this]
    show ?thesis using p by (simp add: dispatch.simps)
  qed
qed

subsubsection \<open>The bookkeeping of a run of calls\<close>

lemma open_not_closed: "open_group s g \<Longrightarrow> \<not> closed_group s g"
  by (auto simp: open_group_def closed_group_def split: option.splits node.splits)

lemma open_group_valid: "open_group s g \<Longrightarrow> g < length (entries s)"
  by (auto simp: open_group_def lookup_def split: if_splits)

lemma finite_closed_between: "finite {g. closed_between s s' g}"
proof (rule finite_subset)
  show "{g. closed_between s s' g} \<subseteq> {..<length (entries s)}"
    by (auto simp: closed_between_def dest: open_group_valid)
qed simp

lemma count_list_map_Decrement:
  "count_list (map Decrement xs) (Decrement d) = count_list xs d"
  by (induction xs) auto

lemma count_list_map_Decrement_Clear:
  "Clear owner \<notin> set (map Decrement xs)"
  by auto

lemma count_list_notify_calls:
  "count_list (notify_calls t i) (Decrement d) = count_list (t i) d"
  by (simp add: notify_calls_def count_list_map_Decrement)

lemma Clear_in_notify_calls:
  "Clear owner \<in> set (notify_calls t i) \<longleftrightarrow> owner = i"
  by (auto simp: notify_calls_def)

lemma closed_between_refl: "{g. closed_between s s g} = {}"
  by (auto simp: closed_between_def dest: open_not_closed)

lemma accounted_Nil: "accounted [] s s"
  by (simp add: accounted_def closed_between_refl)
     (auto simp: closed_between_def dest: open_not_closed)

lemma accounted_Clear:
  assumes p: "perform (Clear owner) s = Inr (new, s1)"
    and quiet: "\<not> open_group s owner"
    and IH: "accounted cs s1 s'"
  shows "accounted (Clear owner # cs) s s'"
proof -
  note f = perform_Clear_facts [OF p]
  note v = entries_eq_views [OF f(2)]
  have cb: "closed_between s1 s' = closed_between s s'"
    by (simp add: closed_between_def v fun_eq_iff)
  have sum_eq: "(\<Sum>g | closed_between s s' g. int (count_list (dependency_table s1 g) d))
        = (\<Sum>g | closed_between s s' g. int (count_list (dependency_table s g) d))" for d
  proof (rule sum.cong)
    fix g assume "g \<in> {g. closed_between s s' g}"
    then have "g \<noteq> owner" using quiet by (auto simp: closed_between_def)
    then show "int (count_list (dependency_table s1 g) d) = int (count_list (dependency_table s g) d)"
      by (simp add: f(3))
  qed simp
  from IH have len: "length (entries s') = length (entries s1)"
    and op: "\<forall>g. open_group s' g \<longrightarrow> open_group s1 g"
    and cl: "\<forall>g. closed_group s1 g \<longrightarrow> closed_group s' g"
    and kd: "\<forall>g. open_group s1 g \<longrightarrow> open_group s' g \<or> closed_group s' g"
    and tab: "\<forall>o'. dependency_table s' o' =
            (if Clear o' \<in> set cs \<or> closed_between s1 s' o' then []
             else dependency_table s1 o')"
    and cnt: "\<forall>d. count_of s1 d =
            count_of s' d + int (count_list cs (Decrement d))
              + (\<Sum>g | closed_between s1 s' g. int (count_list (dependency_table s1 g) d))"
    by (simp_all add: accounted_def)
  show ?thesis
    unfolding accounted_def
  proof (intro conjI allI)
    show "length (entries s') = length (entries s)" using len by (simp add: f(2))
    show "open_group s' g \<longrightarrow> open_group s g" for g using op by (simp add: v)
    show "closed_group s g \<longrightarrow> closed_group s' g" for g using cl by (simp add: v)
    show "open_group s g \<longrightarrow> open_group s' g \<or> closed_group s' g" for g using kd by (simp add: v)
    show "dependency_table s' o' =
            (if Clear o' \<in> set (Clear owner # cs) \<or> closed_between s s' o' then []
             else dependency_table s o')" for o'
      using tab [rule_format, of o'] by (auto simp: cb f(3))
    show "count_of s d =
            count_of s' d + int (count_list (Clear owner # cs) (Decrement d))
              + (\<Sum>g | closed_between s s' g. int (count_list (dependency_table s g) d))" for d
      using cnt [rule_format, of d] by (simp add: cb v sum_eq)
  qed
qed


lemma accounted_Decrement:
  assumes p: "perform (Decrement i) s = Inr (new, s1)"
    and IH: "accounted (new @ cs) s1 s'"
  shows "accounted (Decrement i # cs) s s'"
proof -
  note f = perform_Decrement_facts [OF p]
  from IH have len: "length (entries s') = length (entries s1)"
    and op: "\<forall>g. open_group s' g \<longrightarrow> open_group s1 g"
    and cl: "\<forall>g. closed_group s1 g \<longrightarrow> closed_group s' g"
    and kd: "\<forall>g. open_group s1 g \<longrightarrow> open_group s' g \<or> closed_group s' g"
    and tab: "\<forall>o'. dependency_table s' o' =
            (if Clear o' \<in> set (new @ cs) \<or> closed_between s1 s' o' then []
             else dependency_table s1 o')"
    and cnt: "\<forall>d. count_of s1 d =
            count_of s' d + int (count_list (new @ cs) (Decrement d))
              + (\<Sum>g | closed_between s1 s' g. int (count_list (dependency_table s1 g) d))"
    by (simp_all add: accounted_def)
  define closing where "closing = (open_group s i \<and> count_of s i = 1)"
  have new: "new = (if closing then notify_calls (dependency_table s) i else [])"
    using f(9) by (simp add: closing_def)
  have cb_other: "closed_between s s' g = closed_between s1 s' g" if "g \<noteq> i" for g
    using that by (simp add: closed_between_def f(7))
  have cb_i: "closed_between s s' i = (closing \<or> closed_between s1 s' i)"
    and cb1_i: "closing \<Longrightarrow> \<not> closed_between s1 s' i"
  proof -
    show "closing \<Longrightarrow> \<not> closed_between s1 s' i"
      by (simp add: closed_between_def f(7) closing_def)
    show "closed_between s s' i = (closing \<or> closed_between s1 s' i)"
    proof (cases closing)
      case True
      then have "closed_group s1 i" by (simp add: f(8) closing_def)
      with cl have "closed_group s' i" by blast
      with True show ?thesis by (simp add: closed_between_def closing_def)
    next
      case False
      then show ?thesis by (auto simp: closed_between_def f(7) closing_def)
    qed
  qed
  have cb_set: "{g. closed_between s s' g}
                  = (if closing then insert i {g. closed_between s1 s' g}
                     else {g. closed_between s1 s' g})"
  proof -
    have "closed_between s s' g = ((closing \<and> g = i) \<or> closed_between s1 s' g)" for g
      using cb_other [of g] cb_i cb1_i by (cases "g = i") auto
    then show ?thesis by auto
  qed
  have sum_split:
    "(\<Sum>g | closed_between s s' g. int (count_list (dependency_table s g) d))
       = (\<Sum>g | closed_between s1 s' g. int (count_list (dependency_table s g) d))
         + (if closing then int (count_list (dependency_table s i) d) else 0)" for d
  proof (cases closing)
    case True
    then show ?thesis
      using cb1_i finite_closed_between [of s1 s'] by (simp add: cb_set)
  next
    case False
    then show ?thesis by (simp add: cb_set)
  qed
  show ?thesis
    unfolding accounted_def
  proof (intro conjI allI)
    show "length (entries s') = length (entries s)" using len by (simp add: f(1))
    show "open_group s' g \<longrightarrow> open_group s g" for g using op by (auto simp: f(7))
    show "closed_group s g \<longrightarrow> closed_group s' g" for g using cl by (auto simp: f(8))
    show "open_group s g \<longrightarrow> open_group s' g \<or> closed_group s' g" for g
      using kd [rule_format, of g] cl [rule_format, of g] by (auto simp: f(7) f(8))
    show "dependency_table s' o' =
            (if Clear o' \<in> set (Decrement i # cs) \<or> closed_between s s' o' then []
             else dependency_table s o')" for o'
    proof (cases "o' = i")
      case True
      then show ?thesis
        using tab [rule_format, of i] cb_i
        by (auto simp: new f(2) Clear_in_notify_calls)
    next
      case False
      then show ?thesis
        using tab [rule_format, of o'] cb_other [of o']
        by (auto simp: new f(2) Clear_in_notify_calls)
    qed
    show "count_of s d =
            count_of s' d + int (count_list (Decrement i # cs) (Decrement d))
              + (\<Sum>g | closed_between s s' g. int (count_list (dependency_table s g) d))" for d
      using cnt [rule_format, of d] f(4) [of d]
      by (auto simp: new f(2) sum_split count_list_notify_calls)
  qed
qed

lemma dispatch_accounted:
  assumes "\<forall>owner. Clear owner \<in> set cs \<longrightarrow> \<not> open_group s owner"
    and "dispatch cs s = Inr s'"
  shows "accounted cs s s'"
  using assms
proof (induction cs s rule: dispatch.induct)
  case (1 s)
  then show ?case by (simp add: dispatch.simps accounted_Nil)
next
  case (2 c cs s)
  from "2.prems"(2) obtain new s1 where p: "perform c s = Inr (new, s1)"
    and d: "dispatch (new @ cs) s1 = Inr s'"
    by (auto simp: dispatch.simps split: sum.splits)
  show ?case
  proof (cases c)
    case (Clear owner)
    with p have pc: "perform (Clear owner) s = Inr (new, s1)" by simp
    note f = perform_Clear_facts [OF pc]
    note v = entries_eq_views [OF f(2)]
    have q: "\<forall>owner. Clear owner \<in> set (new @ cs) \<longrightarrow> \<not> open_group s1 owner"
      using "2.prems"(1) by (simp add: f(1) v)
    from "2.IH" [OF p refl q d] have "accounted cs s1 s'" by (simp add: f(1))
    from accounted_Clear [OF pc _ this] "2.prems"(1) Clear show ?thesis by simp
  next
    case (Decrement i)
    with p have pd: "perform (Decrement i) s = Inr (new, s1)" by simp
    note f = perform_Decrement_facts [OF pd]
    have q: "\<forall>owner. Clear owner \<in> set (new @ cs) \<longrightarrow> \<not> open_group s1 owner"
      using "2.prems"(1)
      by (auto simp: f(9) f(7) Clear_in_notify_calls split: if_splits)
    from "2.IH" [OF p refl q d] have "accounted (new @ cs) s1 s'" .
    from accounted_Decrement [OF pd this] Decrement show ?thesis by simp
  qed
qed

subsubsection \<open>An owner that is being notified does not close\<close>

text \<open>
  While the dependents of an owner are notified, a Group among them that closes has the
  counter zero. If the owner were a Group that closes in the same run, its dependents
  would be notified a second time, this one among them, and the run would end in the
  fatal error. So in a run that ends without one, every owner is notified once.
\<close>

lemma closed_group_stuck: "closed_group s g \<Longrightarrow> stuck s g"
  by (auto simp: closed_group_def stuck_def split: option.splits node.splits)

lemma Decrement_in_notify_calls:
  "Decrement d \<in> set (notify_calls t i) \<longleftrightarrow> d \<in> set (t i)"
  by (auto simp: notify_calls_def)

lemma owner_stays_open:
  assumes "stuck s z" and "z \<in> set (dependency_table s owner)" and "Clear owner \<notin> set cs"
    and "open_group s owner" and "dispatch cs s = Inr s'"
  shows "open_group s' owner \<and> dependency_table s' owner = dependency_table s owner"
  using assms
proof (induction cs s rule: dispatch.induct)
  case (1 s)
  then show ?case by (simp add: dispatch.simps)
next
  case (2 c cs s)
  from "2.prems"(5) obtain new s1 where p: "perform c s = Inr (new, s1)"
    and d: "dispatch (new @ cs) s1 = Inr s'"
    by (auto simp: dispatch.simps split: sum.splits)
  note z1 = perform_stuck [OF p "2.prems"(1)]
  show ?case
  proof (cases c)
    case (Clear o')
    with p have pc: "perform (Clear o') s = Inr (new, s1)" by simp
    note f = perform_Clear_facts [OF pc]
    note v = entries_eq_views [OF f(2)]
    from "2.prems"(3) Clear have ne: "o' \<noteq> owner" by auto
    then have t: "dependency_table s1 owner = dependency_table s owner" by (simp add: f(3))
    from "2.IH" [OF p refl z1 _ _ _ d] "2.prems" t ne
    show ?thesis by (simp add: f(1) v)
  next
    case (Decrement i)
    with p have pd: "perform (Decrement i) s = Inr (new, s1)" by simp
    note f = perform_Decrement_facts [OF pd]
    have t: "dependency_table s1 owner = dependency_table s owner" by (simp add: f(2))
    show ?thesis
    proof (cases "i = owner \<and> count_of s i = 1")
      case True
      with "2.prems"(2,4) f(9) have "Decrement z \<in> set (new @ cs)"
        by (auto simp: Decrement_in_notify_calls)
      from dispatch_doomed [OF z1 this] d show ?thesis by simp
    next
      case False
      with "2.prems"(3,4) have c: "Clear owner \<notin> set (new @ cs)"
        and o: "open_group s1 owner"
        by (auto simp: f(9) f(7) Clear_in_notify_calls split: if_splits)
      from "2.IH" [OF p refl z1 _ c o d] "2.prems"(2) t show ?thesis by simp
    qed
  qed
qed

lemma decrement_each_owner_open:
  assumes "open_group s owner" and "set ds \<subseteq> set (dependency_table s owner)"
    and "decrement_each ds s = Inr s'"
  shows "open_group s' owner \<and> dependency_table s' owner = dependency_table s owner"
  using assms
proof (induction ds arbitrary: s)
  case Nil
  then show ?case by simp
next
  case (Cons d ds)
  from Cons.prems(3) obtain s1 where d1: "decrementDependency d s = Inr s1"
    and rest: "decrement_each ds s1 = Inr s'"
    by (auto split: sum.splits)
  from d1 obtain new s0 where p: "perform (Decrement d) s = Inr (new, s0)"
    and run: "dispatch new s0 = Inr s1"
    by (auto simp: decrementDependency_def dispatch.simps split: sum.splits)
  note f = perform_Decrement_facts [OF p]
  have t0: "dependency_table s0 owner = dependency_table s owner" by (simp add: f(2))
  from Cons.prems(2) have din: "d \<in> set (dependency_table s owner)" by simp
  have step: "open_group s1 owner \<and> dependency_table s1 owner = dependency_table s owner"
  proof (cases "open_group s d \<and> count_of s d = 1")
    case False
    with f(9) have "new = []" by auto
    with run have "s1 = s0" by (simp add: dispatch.simps)
    with False Cons.prems(1) t0 show ?thesis by (auto simp: f(7))
  next
    case True
    then have cl: "closed_group s0 d" by (simp add: f(8))
    note z = closed_group_stuck [OF cl]
    show ?thesis
    proof (cases "d = owner")
      case True
      with din \<open>open_group s d \<and> count_of s d = 1\<close>
      have "Decrement d \<in> set new" using f(9) by (auto simp: Decrement_in_notify_calls)
      from dispatch_doomed [OF z this] run show ?thesis by simp
    next
      case False
      with True f(9) have c: "Clear owner \<notin> set new"
        by (auto simp: Clear_in_notify_calls)
      from False Cons.prems(1) have o: "open_group s0 owner" by (simp add: f(7))
      from din have "d \<in> set (dependency_table s0 owner)" by (simp add: t0)
      from owner_stays_open [OF z this c o run] t0 show ?thesis by simp
    qed
  qed
  with Cons.prems(2) have "set ds \<subseteq> set (dependency_table s1 owner)" by simp
  from Cons.IH [OF _ this rest] step show ?case by simp
qed

subsubsection \<open>The bookkeeping of a run of notifications\<close>

lemma finite_notified: "finite (notified owners s s')"
  by (simp add: notified_def finite_closed_between)

lemma settled_Nil: "settled [] s s"
  by (simp add: settled_def notified_def closed_between_refl)

lemma notifyDependents_settled:
  assumes "notifyDependents owner s = Inr s'"
  shows "settled [owner] s s'"
proof -
  let ?ds = "dependency_table s owner"
  from assms obtain s1 where each: "decrement_each ?ds s = Inr s1"
    and s': "s' = clear_registration owner s1"
    by (auto simp: notifyDependents_unfold split: sum.splits)
  have e: "entries s' = entries s1" by (simp add: s' clear_registration_def)
  note v = entries_eq_views [OF e]
  have t: "dependency_table s' = (dependency_table s1)(owner := [])"
    by (simp add: s' clear_registration_def)
  from each have "dispatch (map Decrement ?ds) s = Inr s1"
    by (simp add: dispatch_map_Decrement)
  then have acc: "accounted (map Decrement ?ds) s s1"
    by (intro dispatch_accounted) auto
  have cb: "closed_between s s' = closed_between s s1"
    by (simp add: closed_between_def v fun_eq_iff)
  have not_closed: "\<not> closed_between s s1 owner"
  proof
    assume c: "closed_between s s1 owner"
    then have "open_group s owner" by (simp add: closed_between_def)
    from decrement_each_owner_open [OF this _ each] have "open_group s1 owner" by simp
    with c show False by (auto simp: closed_between_def dest: open_not_closed)
  qed
  have n: "notified [owner] s s' = insert owner {g. closed_between s s1 g}"
    by (simp add: notified_def cb)
  from acc have op: "\<forall>g. open_group s1 g \<longrightarrow> open_group s g"
    and cl: "\<forall>g. closed_group s g \<longrightarrow> closed_group s1 g"
    and kd: "\<forall>g. open_group s g \<longrightarrow> open_group s1 g \<or> closed_group s1 g"
    and tab: "\<forall>o'. dependency_table s1 o' =
            (if Clear o' \<in> set (map Decrement ?ds) \<or> closed_between s s1 o' then []
             else dependency_table s o')"
    and cnt: "\<forall>d. count_of s d =
            count_of s1 d + int (count_list (map Decrement ?ds) (Decrement d))
              + (\<Sum>g | closed_between s s1 g. int (count_list (dependency_table s g) d))"
    by (simp_all add: accounted_def)
  show ?thesis
    unfolding settled_def n
  proof (intro conjI allI)
    show "open_group s' g \<longrightarrow> open_group s g" for g using op by (simp add: v)
    show "closed_group s g \<longrightarrow> closed_group s' g" for g using cl by (simp add: v)
    show "open_group s g \<longrightarrow> open_group s' g \<or> closed_group s' g" for g using kd by (simp add: v)
    show "dependency_table s' o' =
            (if o' \<in> insert owner {g. closed_between s s1 g} then []
             else dependency_table s o')" for o'
      using tab [rule_format, of o'] by (auto simp: t)
    show "count_of s d =
            count_of s' d
              + (\<Sum>o' \<in> insert owner {g. closed_between s s1 g}.
                   int (count_list (dependency_table s o') d))" for d
      using cnt [rule_format, of d] not_closed finite_closed_between [of s s1]
      by (simp add: v count_list_map_Decrement)
  qed
qed

lemma settled_compose:
  assumes a: "settled [owner] s s1" and b: "settled owners s1 s'"
  shows "settled (owner # owners) s s'"
proof -
  let ?A = "notified [owner] s s1" and ?B = "notified owners s1 s'"
  let ?f = "\<lambda>d o'. int (count_list (dependency_table s o') d)"
  from a have op1: "\<forall>g. open_group s1 g \<longrightarrow> open_group s g"
    and cl1: "\<forall>g. closed_group s g \<longrightarrow> closed_group s1 g"
    and kd1: "\<forall>g. open_group s g \<longrightarrow> open_group s1 g \<or> closed_group s1 g"
    and tab1: "\<forall>o'. dependency_table s1 o' = (if o' \<in> ?A then [] else dependency_table s o')"
    and cnt1: "\<forall>d. count_of s d = count_of s1 d + (\<Sum>o' \<in> ?A. ?f d o')"
    by (simp_all add: settled_def)
  from b have op2: "\<forall>g. open_group s' g \<longrightarrow> open_group s1 g"
    and cl2: "\<forall>g. closed_group s1 g \<longrightarrow> closed_group s' g"
    and kd2: "\<forall>g. open_group s1 g \<longrightarrow> open_group s' g \<or> closed_group s' g"
    and tab2: "\<forall>o'. dependency_table s' o' = (if o' \<in> ?B then [] else dependency_table s1 o')"
    and cnt2: "\<forall>d. count_of s1 d = count_of s' d
                  + (\<Sum>o' \<in> ?B. int (count_list (dependency_table s1 o') d))"
    by (simp_all add: settled_def)
  have cb: "closed_between s s' g = (closed_between s s1 g \<or> closed_between s1 s' g)" for g
    using op1 cl2 kd1 by (auto simp: closed_between_def dest: open_not_closed)
  have n: "notified (owner # owners) s s' = ?A \<union> ?B"
    by (auto simp: notified_def cb)
  have fin: "finite ?A" "finite ?B" by (rule finite_notified)+
  have sumB: "(\<Sum>o' \<in> ?B. int (count_list (dependency_table s1 o') d)) = (\<Sum>o' \<in> ?B - ?A. ?f d o')" for d
  proof -
    have "(\<Sum>o' \<in> ?B. int (count_list (dependency_table s1 o') d))
            = (\<Sum>o' \<in> ?B. if o' \<in> ?A then 0 else ?f d o')"
      by (rule sum.cong) (simp_all add: tab1)
    also have "\<dots> = (\<Sum>o' \<in> ?B - ?A. ?f d o')"
      using fin(2) by (simp add: sum.If_cases Diff_eq)
    finally show ?thesis .
  qed
  have sumAB: "(\<Sum>o' \<in> ?A \<union> ?B. ?f d o') = (\<Sum>o' \<in> ?A. ?f d o') + (\<Sum>o' \<in> ?B - ?A. ?f d o')" for d
  proof -
    have "?A \<union> ?B = ?A \<union> (?B - ?A)" by auto
    then have "(\<Sum>o' \<in> ?A \<union> ?B. ?f d o') = (\<Sum>o' \<in> ?A \<union> (?B - ?A). ?f d o')" by simp
    also have "\<dots> = (\<Sum>o' \<in> ?A. ?f d o') + (\<Sum>o' \<in> ?B - ?A. ?f d o')"
      using fin by (intro sum.union_disjoint) auto
    finally show ?thesis .
  qed
  show ?thesis
    unfolding settled_def n
  proof (intro conjI allI)
    show "open_group s' g \<longrightarrow> open_group s g" for g using op1 op2 by blast
    show "closed_group s g \<longrightarrow> closed_group s' g" for g using cl1 cl2 by blast
    show "open_group s g \<longrightarrow> open_group s' g \<or> closed_group s' g" for g
      using kd1 kd2 cl2 by blast
    show "dependency_table s' o' = (if o' \<in> ?A \<union> ?B then [] else dependency_table s o')" for o'
      using tab1 [rule_format, of o'] tab2 [rule_format, of o'] by auto
    show "count_of s d = count_of s' d + (\<Sum>o' \<in> ?A \<union> ?B. ?f d o')" for d
      using cnt1 [rule_format, of d] cnt2 [rule_format, of d]
      by (simp add: sumB sumAB)
  qed
qed

lemma notify_each_settled:
  "notify_each owners s = Inr s' \<Longrightarrow> settled owners s s'"
proof (induction owners arbitrary: s)
  case Nil
  then show ?case by (simp add: settled_Nil)
next
  case (Cons owner owners)
  from Cons.prems obtain s1 where n: "notifyDependents owner s = Inr s1"
    and rest: "notify_each owners s1 = Inr s'"
    by (auto split: sum.splits)
  from settled_compose [OF notifyDependents_settled [OF n] Cons.IH [OF rest]]
  show ?case .
qed

lemma distinct_count_list:
  "distinct xs \<Longrightarrow> count_list xs d = (if d \<in> set xs then 1 else 0)"
  by (induction xs) auto

lemma sum_registered_card:
  assumes "tables_distinct s" and "finite F"
  shows "(\<Sum>owner \<in> F. int (count_list (dependency_table s owner) d))
           = int (card {owner \<in> F. d \<in> set (dependency_table s owner)})"
proof -
  have "(\<Sum>owner \<in> F. int (count_list (dependency_table s owner) d))
          = (\<Sum>owner \<in> F. if d \<in> set (dependency_table s owner) then 1 else 0)"
    using assms(1) by (intro sum.cong) (simp_all add: tables_distinct_def distinct_count_list)
  also have "\<dots> = int (card {owner \<in> F. d \<in> set (dependency_table s owner)})"
    using assms(2) by (simp add: sum.If_cases Int_def)
  finally show ?thesis .
qed

lemma example_cascade_entries:
  "entries example_cascade
     = [JobNode (Job 0), GroupNode (Group True [0]), JobNode (Job 2), JobNode (Job 0)]"
  by (simp add: example_cascade_def addDependent_def new_group_def new_job_def empty_system_def)

lemma example_cascade_table:
  "dependency_table example_cascade 0 = [1]"
  "dependency_table example_cascade 1 = [2]"
  "dependency_table example_cascade 2 = []"
  "dependency_table example_cascade 3 = [2]"
  by (simp_all add: example_cascade_def addDependent_def new_group_def new_job_def empty_system_def)

lemma example_cascade_table_Suc:
  "dependency_table example_cascade (Suc 0) = [2]"
  using example_cascade_table(2) by simp

lemma example_cascade_reachable: "reachable example_cascade"
  unfolding example_cascade_def by (intro reachable.intros)


lemma example_cascade_run:
  "notifyDependents 0 example_cascade = Inr example_cascade_notified"
  by (simp add: notifyDependents_def notify_calls_def dispatch.simps lookup_def put_def
        example_cascade_entries example_cascade_table example_cascade_table_Suc
        example_cascade_notified_def
        group_decrementDependency_def job_decrementDependency_def entry_decrementDependency_def
        dependencyReady_def Group_def Job_def clear_registration_def)


lemma example_cascade_notified_entries:
  "entries example_cascade_notified
     = [JobNode (Job 0),
        GroupNode ((Group True [0])\<lparr>dependency_count := 0, sync_event := Some Released\<rparr>),
        JobNode (Job 1), JobNode (Job 0)]"
  by (simp add: example_cascade_notified_def clear_registration_def put_def
        example_cascade_entries)

lemma example_cascade_notified_table:
  "dependency_table example_cascade_notified 0 = []"
  "dependency_table example_cascade_notified 1 = []"
  "dependency_table example_cascade_notified 3 = [2]"
  by (simp_all add: example_cascade_notified_def clear_registration_def put_def
        example_cascade_table)

lemma example_cascade_closed:
  "{g. closed_between example_cascade example_cascade_notified g} = {1}"
proof -
  have "open_group example_cascade g \<longleftrightarrow> g = 1" for g
  proof (cases "g < 4")
    case True
    then consider "g = 0" | "g = 1" | "g = 2" | "g = 3" by linarith
    then show ?thesis
      by cases
         (simp_all add: open_group_def lookup_def example_cascade_entries Group_def Job_def)
  next
    case False
    then show ?thesis
      by (simp add: open_group_def lookup_def example_cascade_entries)
  qed
  moreover have "closed_group example_cascade_notified 1"
    by (simp add: closed_group_def lookup_def example_cascade_notified_entries)
  ultimately show ?thesis
    by (auto simp: closed_between_def)
qed


text \<open>
  C2. \<open>notifyDependents(owner)\<close> calls \<open>decrementDependency\<close> exactly once on each
  dependent registered against \<open>owner\<close> and then clears the registration of \<open>owner\<close>,
  so that over a whole run each registered edge produces exactly one decrement.
  The dependents registered against \<open>owner\<close> are those that \<open>addDependent\<close> added, each
  once in the list in every reachable state; \<open>notifyDependents\<close> is
  \<open>decrementDependency\<close> on each of them in turn, with all that it triggers, followed by
  the removal of the registration; after it, notifying \<open>owner\<close> again changes nothing.
  For a whole run of completions, \<open>notifyDependents\<close> for each owner of a list, that ends
  without a fatal error: the owners notified are those of the list and the Groups of which
  the barrier closed in the run; the registration of every notified owner is removed and
  the registration of every other owner is exactly the one before the run; and the counter
  of every entry has gone down by exactly the number of registrations of it against
  notified owners, that is by one for each registered edge of which the owner was
  notified, and by nothing else: no edge is notified twice, none is missed, and no edge of
  an owner that was not notified is lost or decremented.
\<close>

theorem notifyDependents_each_dependent_once:
  "set (dependency_table (addDependent owner d s) owner) = insert d (set (dependency_table s owner))
   \<and> (reachable s \<longrightarrow> distinct (dependency_table s owner))
   \<and> notifyDependents owner s =
       (case decrement_each (dependency_table s owner) s of
          Inl e \<Rightarrow> Inl e
        | Inr s' \<Rightarrow> Inr (clear_registration owner s'))
   \<and> (\<forall>s'. notifyDependents owner s = Inr s' \<longrightarrow>
         dependency_table s' owner = [] \<and> notifyDependents owner s' = Inr s')
   \<and> (\<forall>s'. notify_each owners s = Inr s' \<longrightarrow>
         (\<forall>o'. dependency_table s' o' =
                 (if o' \<in> notified owners s s' then [] else dependency_table s o'))
       \<and> (\<forall>e. count_of s' e =
                 count_of s e
                   - (\<Sum>o' \<in> notified owners s s'. int (count_list (dependency_table s o') e)))
       \<and> (reachable s \<longrightarrow>
            (\<forall>e. count_of s' e =
                 count_of s e
                   - int (card {o' \<in> notified owners s s'. e \<in> set (dependency_table s o')}))))"
proof (intro conjI impI allI)
  show "set (dependency_table (addDependent owner d s) owner) = insert d (set (dependency_table s owner))"
    by (simp add: addDependent_def)
next
  show "notifyDependents owner s =
     (case decrement_each (dependency_table s owner) s of
        Inl e \<Rightarrow> Inl e
      | Inr s' \<Rightarrow> Inr (clear_registration owner s'))"
    by (rule notifyDependents_unfold)
next
  assume "reachable s"
  then show "distinct (dependency_table s owner)"
    using reachable_tables_distinct by (simp add: tables_distinct_def)
next
  fix s'
  assume "notifyDependents owner s = Inr s'"
  then have c: "dependency_table s' owner = []"
    by (auto simp: notifyDependents_unfold clear_registration_def split: sum.splits)
  then show "dependency_table s' owner = []" .
  from c show "notifyDependents owner s' = Inr s'"
    by (rule notifyDependents_cleared)
next
  fix s' o'
  assume "notify_each owners s = Inr s'"
  from notify_each_settled [OF this]
  show "dependency_table s' o' =
          (if o' \<in> notified owners s s' then [] else dependency_table s o')"
    by (simp add: settled_def)
next
  fix s' e
  assume "notify_each owners s = Inr s'"
  from notify_each_settled [OF this]
  have "count_of s e =
          count_of s' e
            + (\<Sum>o' \<in> notified owners s s'. int (count_list (dependency_table s o') e))"
    by (simp add: settled_def)
  then show "count_of s' e =
          count_of s e
            - (\<Sum>o' \<in> notified owners s s'. int (count_list (dependency_table s o') e))"
    by simp
next
  fix s' e
  assume "notify_each owners s = Inr s'" and r: "reachable s"
  from notify_each_settled [OF this(1)]
  have "count_of s e =
          count_of s' e
            + (\<Sum>o' \<in> notified owners s s'. int (count_list (dependency_table s o') e))"
    by (simp add: settled_def)
  then show "count_of s' e =
          count_of s e
            - int (card {o' \<in> notified owners s s'. e \<in> set (dependency_table s o')})"
    by (simp add: sum_registered_card [OF reachable_tables_distinct [OF r] finite_notified])
qed


theorem notifyDependents_each_dependent_once_witness:
  "reachable example_cascade
   \<and> dependency_table example_cascade 0 = [1]
   \<and> dependency_table example_cascade 1 = [2]
   \<and> dependency_table example_cascade 3 = [2]
   \<and> count_of example_cascade 1 = 1
   \<and> count_of example_cascade 2 = 2
   \<and> notifyDependents 0 example_cascade = Inr example_cascade_notified
   \<and> notify_each [0] example_cascade = Inr example_cascade_notified
   \<and> notified [0] example_cascade example_cascade_notified = {0, 1}
   \<and> dependency_table example_cascade_notified 0 = []
   \<and> dependency_table example_cascade_notified 1 = []
   \<and> dependency_table example_cascade_notified 3 = [2]
   \<and> count_of example_cascade_notified 1 = 0
   \<and> count_of example_cascade_notified 2 = 1
   \<and> notifyDependents 0 example_cascade_notified = Inr example_cascade_notified"
proof -
  note r = example_cascade_reachable
  note run = example_cascade_run
  have each: "notify_each [0] example_cascade = Inr example_cascade_notified"
    by (simp add: run)
  have n: "notified [0] example_cascade example_cascade_notified = {0, 1}"
    by (auto simp: notified_def example_cascade_closed)
  have c: "count_of example_cascade 1 = 1" "count_of example_cascade 2 = 2"
    by (simp_all add: count_of_def lookup_def example_cascade_entries Group_def Job_def)
  have k1: "{o' \<in> {0, 1}. (1::nat) \<in> set (dependency_table example_cascade o')} = {0}"
    and k2: "{o' \<in> {0, 1}. (2::nat) \<in> set (dependency_table example_cascade o')} = {1}"
    by (auto simp: example_cascade_table example_cascade_table_Suc)
  note inst = notifyDependents_each_dependent_once [of 0 1 example_cascade "[0]"]
  from inst run have again: "notifyDependents 0 example_cascade_notified = Inr example_cascade_notified"
    by blast
  from inst each r have
    t: "\<And>o'. dependency_table example_cascade_notified o' =
          (if o' \<in> notified [0] example_cascade example_cascade_notified then []
           else dependency_table example_cascade o')"
    and k: "\<And>e. count_of example_cascade_notified e =
          count_of example_cascade e
            - int (card {o' \<in> notified [0] example_cascade example_cascade_notified.
                           e \<in> set (dependency_table example_cascade o')})"
    by blast+
  have k1': "count_of example_cascade_notified 1 = 0"
    using k [of 1] unfolding n k1 c by simp
  have k2': "count_of example_cascade_notified 2 = 1"
    using k [of 2] unfolding n k2 c by simp
  have t': "dependency_table example_cascade_notified 0 = []"
    "dependency_table example_cascade_notified 1 = []"
    "dependency_table example_cascade_notified 3 = [2]"
    using t [of 0] t [of 1] t [of 3] unfolding n by (simp_all add: example_cascade_table)
  from r run each n c again t' k1' k2'
  show ?thesis
    by (simp add: example_cascade_table del: One_nat_def)
qed

subsection \<open>The counter of a Group\<close>

text \<open>
  C5. \<open>decrementDependency\<close> of a Group delegates to the base counter (it fails with
  \<open>CounterUnderflow\<close> at zero and decrements otherwise) and, exactly when the counter
  reaches zero, triggers \<open>dependencyReady\<close>: the blocking primitive, if present, is
  released, so that a wait returns, and \<open>notifyDependents\<close> of the Group propagates a
  decrement to each of its dependents; for any other value of the counter the event and
  the dependents are left alone. \<open>incrementDependency\<close> of a Group delegates to the base
  counter and, exactly when the counter was zero, triggers \<open>dependencyNotReady\<close>: the
  primitive is armed again, so that a wait blocks.
\<close>

theorem group_counter_triggers:
  assumes "lookup s i = Some (GroupNode g)"
  shows "decrementDependency i s =
           (if dependency_count g = 0 then Inl CounterUnderflow
            else if dependency_count g = 1
            then notifyDependents i
                   (put i (GroupNode (g\<lparr>dependency_count := 0,
                                         sync_event := map_option (\<lambda>_. Released) (sync_event g)\<rparr>)) s)
            else Inr (put i (GroupNode (g\<lparr>dependency_count := dependency_count g - 1\<rparr>)) s))
       \<and> wait i (put i (GroupNode (g\<lparr>dependency_count := 0,
                                       sync_event := map_option (\<lambda>_. Released) (sync_event g)\<rparr>)) s)
           = map_option (\<lambda>_. WaitReturns) (sync_event g)
       \<and> incrementDependency i s =
           Inr (put i (GroupNode (g\<lparr>dependency_count := dependency_count g + 1,
                                     sync_event := (if dependency_count g = 0
                                                    then map_option (\<lambda>_. Armed) (sync_event g)
                                                    else sync_event g)\<rparr>)) s)
       \<and> wait i (put i (GroupNode (g\<lparr>dependency_count := 1,
                                       sync_event := map_option (\<lambda>_. Armed) (sync_event g)\<rparr>)) s)
           = map_option (\<lambda>_. WaitBlocks) (sync_event g)"
proof (intro conjI)
  show "decrementDependency i s =
           (if dependency_count g = 0 then Inl CounterUnderflow
            else if dependency_count g = 1
            then notifyDependents i
                   (put i (GroupNode (g\<lparr>dependency_count := 0,
                                         sync_event := map_option (\<lambda>_. Released) (sync_event g)\<rparr>)) s)
            else Inr (put i (GroupNode (g\<lparr>dependency_count := dependency_count g - 1\<rparr>)) s))"
    using assms
    by (auto simp: decrementDependency_def dispatch_single group_decrementDependency_def
          entry_decrementDependency_def dependencyReady_def notifyDependents_def dispatch.simps)
  show "incrementDependency i s =
           Inr (put i (GroupNode (g\<lparr>dependency_count := dependency_count g + 1,
                                     sync_event := (if dependency_count g = 0
                                                    then map_option (\<lambda>_. Armed) (sync_event g)
                                                    else sync_event g)\<rparr>)) s)"
    using assms
    by (auto simp: incrementDependency_def group_incrementDependency_def
          entry_incrementDependency_def dependencyNotReady_def Let_def)
  show "wait i (put i (GroupNode (g\<lparr>dependency_count := 0,
                                       sync_event := map_option (\<lambda>_. Released) (sync_event g)\<rparr>)) s)
           = map_option (\<lambda>_. WaitReturns) (sync_event g)"
    using lookup_put_same [OF assms]
    by (simp add: wait_def option.map_comp comp_def)
  show "wait i (put i (GroupNode (g\<lparr>dependency_count := 1,
                                       sync_event := map_option (\<lambda>_. Armed) (sync_event g)\<rparr>)) s)
           = map_option (\<lambda>_. WaitBlocks) (sync_event g)"
    using lookup_put_same [OF assms]
    by (simp add: wait_def option.map_comp comp_def)
qed

theorem group_counter_triggers_witness:
  "lookup example_graph 2 = Some (GroupNode (Group True [0]))
   \<and> decrementDependency 2 example_graph =
       notifyDependents 2
         (put 2 (GroupNode ((Group True [0])\<lparr>dependency_count := 0, sync_event := Some Released\<rparr>))
            example_graph)
   \<and> wait 2 (put 2 (GroupNode ((Group True [0])\<lparr>dependency_count := 0, sync_event := Some Released\<rparr>))
               example_graph) = Some WaitReturns
   \<and> incrementDependency 2 example_graph =
       Inr (put 2 (GroupNode ((Group True [0])\<lparr>dependency_count := 2\<rparr>)) example_graph)"
proof -
  have l: "lookup example_graph 2 = Some (GroupNode (Group True [0]))"
    by (simp add: lookup_def example_graph_entries)
  from group_counter_triggers [OF l] l
  show ?thesis by (simp add: Group_def)
qed

end
